theory Spec2Isabelle
  imports Main "HOL-Library.AList" "HOL-Library.Sublist"
begin

section \<open>Python values and the object store\<close>

text \<open>
  The engines of \<^verbatim>\<open>odata_query/visitor.py\<close> walk objects by reference, test their
  run-time class and build new objects. Objects therefore live in a store: an address is
  an object's identity, a field or a list item holds either a scalar or a reference.
\<close>

type_synonym addr = nat

datatype scalar = PyNone | PyBool bool | PyInt int | PyStr string

datatype val = Prim scalar | Ref addr

text \<open>
  A class has a name (\<^verbatim>\<open>__name__\<close>), the names of its ancestors, and the names of its
  dataclass fields in declared order.
\<close>

record pyclass =
  cname :: string
  bases :: "string list"
  cfields :: "string list"

text \<open>
  An object is a dataclass instance (its class and its attribute dictionary) or a list.
\<close>

datatype obj = Instance pyclass "(string \<times> val) list" | PyList "val list"

datatype error =
    RecursionError
  | TypeError string string
  | AttributeError string string
  | SystemError

text \<open>
  The state threaded through a traversal: the store, and the log of the values on which
  \<^verbatim>\<open>visit\<close> has been entered (a ghost variable, used to state in which order nodes are
  reached).
\<close>

record state =
  heap :: "obj list"
  visited :: "val list"

text \<open>
  A call returns an error (a raised exception), or a value and the new state; \<open>None\<close>
  stands for a call that never returns.
\<close>

type_synonym 'a res = "(error + 'a \<times> state) option"

definition and_then :: "'a res \<Rightarrow> ('a \<Rightarrow> state \<Rightarrow> 'b res) \<Rightarrow> 'b res" where
  "and_then m k =
     (case m of
        None \<Rightarrow> None
      | Some (Inl e) \<Rightarrow> Some (Inl e)
      | Some (Inr (x, s)) \<Rightarrow> k x s)"

definition deref :: "obj list \<Rightarrow> addr \<Rightarrow> obj option" where
  "deref h a = (if a < length h then Some (h ! a) else None)"

definition alloc :: "obj \<Rightarrow> state \<Rightarrow> addr \<times> state" where
  "alloc ob s = (length (heap s), s\<lparr>heap := heap s @ [ob]\<rparr>)"

text \<open>\<^verbatim>\<open>node.__class__.__name__\<close>\<close>

fun class_name :: "obj list \<Rightarrow> val \<Rightarrow> error + string" where
  "class_name h (Prim PyNone) = Inr ''NoneType''"
| "class_name h (Prim (PyBool b)) = Inr ''bool''"
| "class_name h (Prim (PyInt i)) = Inr ''int''"
| "class_name h (Prim (PyStr x)) = Inr ''str''"
| "class_name h (Ref a) =
     (case deref h a of
        None \<Rightarrow> Inl SystemError
      | Some (Instance c attrs) \<Rightarrow> Inr (cname c)
      | Some (PyList xs) \<Rightarrow> Inr ''list'')"

text \<open>\<^verbatim>\<open>type(node)\<close>, for an instance of a dataclass\<close>

fun type_of :: "obj list \<Rightarrow> val \<Rightarrow> error + pyclass" where
  "type_of h (Ref a) =
     (case deref h a of
        Some (Instance c attrs) \<Rightarrow> Inr c
      | _ \<Rightarrow> Inl SystemError)"
| "type_of h (Prim p) = Inl SystemError"

text \<open>\<^verbatim>\<open>isinstance(value, ast._Node)\<close>: the class or one of its ancestors is \<^verbatim>\<open>_Node\<close>.\<close>

definition subclass_of_Node :: "pyclass \<Rightarrow> bool" where
  "subclass_of_Node c = (''_Node'' \<in> set (cname c # bases c))"

fun isinstance_Node :: "obj list \<Rightarrow> val \<Rightarrow> bool" where
  "isinstance_Node h (Ref a) =
     (case deref h a of
        Some (Instance c attrs) \<Rightarrow> subclass_of_Node c
      | _ \<Rightarrow> False)"
| "isinstance_Node h (Prim p) = False"

text \<open>\<^verbatim>\<open>isinstance(value, list)\<close>\<close>

fun isinstance_list :: "obj list \<Rightarrow> val \<Rightarrow> bool" where
  "isinstance_list h (Ref a) =
     (case deref h a of
        Some (PyList xs) \<Rightarrow> True
      | _ \<Rightarrow> False)"
| "isinstance_list h (Prim p) = False"

text \<open>The items of a list object, as the list iterator reads them.\<close>

fun list_items :: "obj list \<Rightarrow> val \<Rightarrow> error + val list" where
  "list_items h (Ref a) =
     (case deref h a of
        Some (PyList xs) \<Rightarrow> Inr xs
      | _ \<Rightarrow> Inl SystemError)"
| "list_items h (Prim p) = Inl SystemError"

text \<open>\<^verbatim>\<open>new_val.append(x)\<close>: the list object at \<open>l\<close> is updated in place.\<close>

definition list_append :: "addr \<Rightarrow> val \<Rightarrow> state \<Rightarrow> error + state" where
  "list_append l x s =
     (case deref (heap s) l of
        Some (PyList xs) \<Rightarrow> Inr (s\<lparr>heap := (heap s)[l := PyList (xs @ [x])]\<rparr>)
      | _ \<Rightarrow> Inl SystemError)"

text \<open>\<^verbatim>\<open>getattr(node, name)\<close>\<close>

fun getattr :: "obj list \<Rightarrow> val \<Rightarrow> string \<Rightarrow> error + val" where
  "getattr h (Ref a) f =
     (case deref h a of
        Some (Instance c attrs) \<Rightarrow>
          (case map_of attrs f of
             Some v \<Rightarrow> Inr v
           | None \<Rightarrow> Inl (AttributeError (cname c) f))
      | Some (PyList xs) \<Rightarrow> Inl (AttributeError ''list'' f)
      | None \<Rightarrow> Inl SystemError)"
| "getattr h (Prim p) f = Inl (AttributeError ''scalar'' f)"

section \<open>iter_dataclass_fields\<close>

text \<open>
  \<^verbatim>\<open>for field in fields(node): yield field.name, getattr(node, field.name)\<close>

  \<^verbatim>\<open>fields(node)\<close> is evaluated once, when the generator starts: it is the tuple of the
  class's declared fields, and a \<^verbatim>\<open>TypeError\<close> for a value that is no dataclass instance.
  Each pair is produced when the loop asks for it, from the store as it is then.
\<close>

fun iter_dataclass_fields :: "obj list \<Rightarrow> val \<Rightarrow> error + string list" where
  "iter_dataclass_fields h (Ref a) =
     (case deref h a of
        Some (Instance c attrs) \<Rightarrow> Inr (cfields c)
      | Some (PyList xs) \<Rightarrow> Inl (TypeError ''list'' ''fields'')
      | None \<Rightarrow> Inl SystemError)"
| "iter_dataclass_fields h (Prim p) = Inl (TypeError ''scalar'' ''fields'')"

definition yield_field :: "obj list \<Rightarrow> val \<Rightarrow> string \<Rightarrow> error + string \<times> val" where
  "yield_field h node f =
     (case getattr h node f of
        Inl e \<Rightarrow> Inl e
      | Inr v \<Rightarrow> Inr (f, v))"

section \<open>NodeVisitor\<close>

text \<open>
  \<open>visitfn\<close> is the type of the bound method \<^verbatim>\<open>self.visit\<close>. A handler
  \<^verbatim>\<open>visit_<Kind>\<close> is user code: it receives \<^verbatim>\<open>self.visit\<close> and
  \<^verbatim>\<open>self.generic_visit\<close> (the two methods it may call back) and the node. The handlers
  of a visitor are its attributes whose names start with \<^verbatim>\<open>visit_\<close>.
\<close>

type_synonym visitfn = "val \<Rightarrow> state \<Rightarrow> val res"

type_synonym handler = "visitfn \<Rightarrow> visitfn \<Rightarrow> visitfn"

type_synonym handlers = "string \<rightharpoonup> handler"

text \<open>
  \<^verbatim>\<open>
  def visit(self, node):
      method = "visit_" + node.__class__.__name__
      visitor = getattr(self, method, self.generic_visit)
      return visitor(node)
  \<close>
  \<open>generic\<close> is the class's \<^verbatim>\<open>generic_visit\<close> (NodeTransformer overrides it and inherits
  \<^verbatim>\<open>visit\<close>). The first argument bounds the nesting of \<^verbatim>\<open>visit\<close> calls, as the
  interpreter's recursion limit does: a call beyond it raises \<^verbatim>\<open>RecursionError\<close>.
\<close>

primrec visit :: "(visitfn \<Rightarrow> visitfn) \<Rightarrow> handlers \<Rightarrow> nat \<Rightarrow> visitfn" where
  "visit generic hs 0 = (\<lambda>node s. Some (Inl RecursionError))"
| "visit generic hs (Suc n) = (\<lambda>node s.
     (case class_name (heap s) node of
        Inl e \<Rightarrow> Some (Inl e)
      | Inr name \<Rightarrow>
          (let method = ''visit_'' @ name;
               self_visit = visit generic hs n;
               visitor = (case hs method of
                            Some h \<Rightarrow> h self_visit (generic self_visit)
                          | None \<Rightarrow> generic self_visit)
           in visitor node (s\<lparr>visited := visited s @ [node]\<rparr>))))"

text \<open>
  \<^verbatim>\<open>
  for item in value:
      if isinstance(item, ast._Node):
          self.visit(item)
  \<close>
  The list iterator keeps an index into the live list: \<open>i\<close> is that index.
\<close>

partial_function (option) visit_items ::
  "visitfn \<Rightarrow> val \<Rightarrow> nat \<Rightarrow> state \<Rightarrow> (error + unit \<times> state) option" where
  "visit_items self_visit value i s =
     (case list_items (heap s) value of
        Inl e \<Rightarrow> Some (Inl e)
      | Inr items \<Rightarrow>
          if i < length items then
            (if isinstance_Node (heap s) (items ! i) then
               (case self_visit (items ! i) s of
                  None \<Rightarrow> None
                | Some (Inl e) \<Rightarrow> Some (Inl e)
                | Some (Inr (r, s')) \<Rightarrow> visit_items self_visit value (Suc i) s')
             else visit_items self_visit value (Suc i) s)
          else Some (Inr ((), s)))"

text \<open>
  \<^verbatim>\<open>
  for field, value in iter_dataclass_fields(node):
      if isinstance(value, list):
          ...
      elif isinstance(value, ast._Node):
          self.visit(value)
  \<close>
\<close>

fun visit_fields :: "visitfn \<Rightarrow> val \<Rightarrow> string list \<Rightarrow> state \<Rightarrow> val res" where
  "visit_fields self_visit node [] s = Some (Inr (Prim PyNone, s))"
| "visit_fields self_visit node (f # fs) s =
     (case yield_field (heap s) node f of
        Inl e \<Rightarrow> Some (Inl e)
      | Inr (field, value) \<Rightarrow>
          if isinstance_list (heap s) value then
            and_then (visit_items self_visit value 0 s)
              (\<lambda>u. visit_fields self_visit node fs)
          else if isinstance_Node (heap s) value then
            and_then (self_visit value s)
              (\<lambda>r. visit_fields self_visit node fs)
          else visit_fields self_visit node fs s)"

definition generic_visit :: "visitfn \<Rightarrow> visitfn" where
  "generic_visit self_visit node s =
     (case iter_dataclass_fields (heap s) node of
        Inl e \<Rightarrow> Some (Inl e)
      | Inr fs \<Rightarrow> visit_fields self_visit node fs s)"

definition NodeVisitor_visit :: "handlers \<Rightarrow> nat \<Rightarrow> visitfn" where
  "NodeVisitor_visit = visit generic_visit"

section \<open>The node constructor\<close>

text \<open>
  Modelled from the spec: the node classes of \<^verbatim>\<open>odata_query.ast\<close> (dataclasses) and
  their generated constructors are not part of the sources at hand. The spec (section 6)
  asks of every node kind "a reconstruction operation accepting a full set of
  (name \<rightarrow> value) pairs matching its declared fields and producing a new instance of the
  same kind", and (section 7) that a field set which does not match the kind's schema is
  fatal and reported with the kind name and the field name. \<open>construct\<close> is that
  operation: keyword arguments are bound by name, an unexpected or a missing name raises
  \<^verbatim>\<open>TypeError\<close>, and the new instance holds its attributes in declared order. The
  source obtains the fields with \<^verbatim>\<open>dataclasses.fields\<close>, so the classes are dataclasses:
  their generated constructors assign the values as they are given and check no types.
\<close>

fun bind_args :: "string \<Rightarrow> string list \<Rightarrow> (string \<times> val) list \<Rightarrow> error + (string \<times> val) list" where
  "bind_args cn [] kwargs = Inr []"
| "bind_args cn (f # fs) kwargs =
     (case map_of kwargs f of
        None \<Rightarrow> Inl (TypeError cn f)
      | Some v \<Rightarrow>
          (case bind_args cn fs kwargs of
             Inl e \<Rightarrow> Inl e
           | Inr attrs \<Rightarrow> Inr ((f, v) # attrs)))"

definition construct :: "pyclass \<Rightarrow> (string \<times> val) list \<Rightarrow> state \<Rightarrow> val res" where
  "construct c kwargs s =
     (case filter (\<lambda>k. k \<notin> set (cfields c)) (map fst kwargs) of
        k # ks \<Rightarrow> Some (Inl (TypeError (cname c) k))
      | [] \<Rightarrow>
          (case bind_args (cname c) (cfields c) kwargs of
             Inl e \<Rightarrow> Some (Inl e)
           | Inr attrs \<Rightarrow>
               (let (a, s') = alloc (Instance c attrs) s
                in Some (Inr (Ref a, s')))))"

section \<open>NodeTransformer\<close>

text \<open>
  \<^verbatim>\<open>
  new_val = []
  for item in value:
      if isinstance(item, ast._Node):
          new_val.append(self.visit(item))
      else:
          new_val.append(item)
  \<close>
  \<open>new_val\<close> is the address of the list object created before the loop.
\<close>

partial_function (option) transform_items ::
  "visitfn \<Rightarrow> val \<Rightarrow> nat \<Rightarrow> addr \<Rightarrow> state \<Rightarrow> (error + unit \<times> state) option" where
  "transform_items self_visit value i new_val s =
     (case list_items (heap s) value of
        Inl e \<Rightarrow> Some (Inl e)
      | Inr items \<Rightarrow>
          if i < length items then
            (if isinstance_Node (heap s) (items ! i) then
               (case self_visit (items ! i) s of
                  None \<Rightarrow> None
                | Some (Inl e) \<Rightarrow> Some (Inl e)
                | Some (Inr (r, s')) \<Rightarrow>
                    (case list_append new_val r s' of
                       Inl e \<Rightarrow> Some (Inl e)
                     | Inr s'' \<Rightarrow> transform_items self_visit value (Suc i) new_val s''))
             else
               (case list_append new_val (items ! i) s of
                  Inl e \<Rightarrow> Some (Inl e)
                | Inr s' \<Rightarrow> transform_items self_visit value (Suc i) new_val s'))
          else Some (Inr ((), s)))"

text \<open>
  \<^verbatim>\<open>
  for field, value in iter_dataclass_fields(node):
      if isinstance(value, list):
          ...
      elif isinstance(value, ast._Node):
          new_val = self.visit(value)
      else:
          new_val = value
      new_kwargs[field] = new_val
  \<close>
  \<open>new_kwargs\<close> is a dictionary in insertion order: assigning to a key that is present
  replaces its value in place, a new key goes to the end.
\<close>

fun transform_fields ::
  "visitfn \<Rightarrow> val \<Rightarrow> string list \<Rightarrow> (string \<times> val) list \<Rightarrow> state \<Rightarrow> ((string \<times> val) list) res" where
  "transform_fields self_visit node [] new_kwargs s = Some (Inr (new_kwargs, s))"
| "transform_fields self_visit node (f # fs) new_kwargs s =
     (case yield_field (heap s) node f of
        Inl e \<Rightarrow> Some (Inl e)
      | Inr (field, value) \<Rightarrow>
          if isinstance_list (heap s) value then
            (let (new_val, s1) = alloc (PyList []) s
             in and_then (transform_items self_visit value 0 new_val s1)
                  (\<lambda>u. transform_fields self_visit node fs
                          (AList.update field (Ref new_val) new_kwargs)))
          else if isinstance_Node (heap s) value then
            and_then (self_visit value s)
              (\<lambda>new_val. transform_fields self_visit node fs
                            (AList.update field new_val new_kwargs))
          else transform_fields self_visit node fs (AList.update field value new_kwargs) s)"

text \<open>
  \<^verbatim>\<open>
  def generic_visit(self, node):
      new_kwargs = {}
      for field, value in iter_dataclass_fields(node): ...
      return type(node)(**new_kwargs)
  \<close>
\<close>

definition NodeTransformer_generic_visit :: "visitfn \<Rightarrow> visitfn" where
  "NodeTransformer_generic_visit self_visit node s =
     (case iter_dataclass_fields (heap s) node of
        Inl e \<Rightarrow> Some (Inl e)
      | Inr fs \<Rightarrow>
          and_then (transform_fields self_visit node fs [] s)
            (\<lambda>new_kwargs s'.
               (case type_of (heap s') node of
                  Inl e \<Rightarrow> Some (Inl e)
                | Inr c \<Rightarrow> construct c new_kwargs s')))"

definition NodeTransformer_visit :: "handlers \<Rightarrow> nat \<Rightarrow> visitfn" where
  "NodeTransformer_visit = visit NodeTransformer_generic_visit"

section \<open>Trees in the store\<close>

text \<open>
  What the engines see of a field value is a tree: a value they do not enter
  (\<open>TLeaf\<close>), a node object with its class and its fields in declared order
  (\<open>TNode\<close>, with the node's address), or a list object with its items in list order
  (\<open>TItems\<close>, with the list's address).
\<close>

datatype tree =
    TLeaf val
  | TNode addr pyclass "(string \<times> tree) list"
  | TItems addr "tree list"

text \<open>The node addresses of a tree in pre-order: a node, then its fields in declared order,
  the items of a list field in list order.\<close>

fun preorder :: "tree \<Rightarrow> addr list" where
  "preorder (TLeaf v) = []"
| "preorder (TNode a c fs) = a # concat (map (\<lambda>(k, t). preorder t) fs)"
| "preorder (TItems l ts) = concat (map preorder ts)"

text \<open>The depth of a tree counts nested nodes; a list adds no level.\<close>

fun depth :: "tree \<Rightarrow> nat" where
  "depth (TLeaf v) = 0"
| "depth (TNode a c fs) = Suc (foldr max (map (\<lambda>(k, t). depth t) fs) 0)"
| "depth (TItems l ts) = foldr max (map depth ts) 0"

text \<open>The addresses of all node and list objects of a tree.\<close>

fun objects :: "tree \<Rightarrow> addr set" where
  "objects (TLeaf v) = {}"
| "objects (TNode a c fs) = insert a (\<Union>(k, t) \<in> set fs. objects t)"
| "objects (TItems l ts) = insert l (\<Union>t \<in> set ts. objects t)"

text \<open>The structure of a tree: kinds, field names and values in order, without the
  identities of its node and list objects.\<close>

fun shape :: "tree \<Rightarrow> tree" where
  "shape (TLeaf v) = TLeaf v"
| "shape (TNode a c fs) = TNode 0 c (map (\<lambda>(k, t). (k, shape t)) fs)"
| "shape (TItems l ts) = TItems 0 (map shape ts)"

definition valid :: "obj list \<Rightarrow> val \<Rightarrow> bool" where
  "valid h v = (case v of Prim p \<Rightarrow> True | Ref a \<Rightarrow> a < length h)"

text \<open>
  \<open>repr h item v t\<close>: in store \<open>h\<close> the value \<open>v\<close> is the root of the tree \<open>t\<close>.
  \<open>item\<close> tells a list item from a field value: a list that is the value of a field is
  entered, a list inside a list is not. A node's class descends from \<^verbatim>\<open>_Node\<close>, its
  declared field names are distinct, and its attributes are those fields.
\<close>

function repr :: "obj list \<Rightarrow> bool \<Rightarrow> val \<Rightarrow> tree \<Rightarrow> bool" where
  "repr h item v (TLeaf w) =
     (v = w \<and> valid h v \<and> (item \<or> \<not> isinstance_list h v) \<and> \<not> isinstance_Node h v)"
| "repr h item v (TNode a c fs) =
     (v = Ref a \<and>
      (case deref h a of
         Some (Instance c' attrs) \<Rightarrow>
           c' = c \<and> subclass_of_Node c \<and> distinct (cfields c) \<and>
           map fst attrs = cfields c \<and> map fst fs = cfields c \<and>
           list_all2 (repr h False) (map snd attrs) (map snd fs)
       | _ \<Rightarrow> False))"
| "repr h item v (TItems l ts) =
     (\<not> item \<and> v = Ref l \<and>
      (case deref h l of
         Some (PyList xs) \<Rightarrow> list_all2 (repr h True) xs ts
       | _ \<Rightarrow> False))"
  by pat_completeness auto
termination
proof (relation "measure (\<lambda>(h, item, v, t). size t)", goal_cases)
  case 1
  show ?case by simp
next
  case 2
  then show ?case
    by (auto simp: less_Suc_eq_le elim!: size_list_estimation')
next
  case 3
  then show ?case
    by (auto simp: less_Suc_eq_le elim!: size_list_estimation')
qed

definition logged :: "state \<Rightarrow> val list \<Rightarrow> state" where
  "logged s vs = s\<lparr>visited := visited s @ vs\<rparr>"

section \<open>Auxiliary notions for the proofs\<close>

text \<open>The addresses of the node objects of a tree.\<close>

fun nodes :: "tree \<Rightarrow> addr set" where
  "nodes (TLeaf v) = {}"
| "nodes (TNode a c fs) = insert a (\<Union>(k, t) \<in> set fs. nodes t)"
| "nodes (TItems l ts) = (\<Union>t \<in> set ts. nodes t)"

text \<open>
  The bodies of the loops of both \<^verbatim>\<open>generic_visit\<close> methods, named so that lemmas can
  speak of one turn of a loop: what is done with one list item, and with one field value.
\<close>

definition visit_item :: "visitfn \<Rightarrow> val \<Rightarrow> state \<Rightarrow> unit res" where
  "visit_item self_visit item s =
     (if isinstance_Node (heap s) item then
        and_then (self_visit item s) (\<lambda>r s'. Some (Inr ((), s')))
      else Some (Inr ((), s)))"

definition visit_value :: "visitfn \<Rightarrow> val \<Rightarrow> state \<Rightarrow> unit res" where
  "visit_value self_visit value s =
     (if isinstance_list (heap s) value then visit_items self_visit value 0 s
      else visit_item self_visit value s)"

definition transform_item :: "visitfn \<Rightarrow> val \<Rightarrow> state \<Rightarrow> val res" where
  "transform_item self_visit item s =
     (if isinstance_Node (heap s) item then self_visit item s else Some (Inr (item, s)))"

definition transform_value :: "visitfn \<Rightarrow> val \<Rightarrow> state \<Rightarrow> val res" where
  "transform_value self_visit value s =
     (if isinstance_list (heap s) value then
        (let (new_val, s1) = alloc (PyList []) s
         in and_then (transform_items self_visit value 0 new_val s1)
              (\<lambda>u s2. Some (Inr (Ref new_val, s2))))
      else transform_item self_visit value s)"

text \<open>
  \<open>copied s item t s' v' t'\<close>: from state \<open>s\<close>, where the tree was \<open>t\<close>, to state \<open>s'\<close>
  the store has only grown, \<open>v'\<close> is the root of a tree \<open>t'\<close> of the same shape made of
  objects that did not exist in \<open>s\<close>, and the nodes of \<open>t\<close> were logged in pre-order.
  \<open>transforms V n t\<close>: with recursion limit \<open>n\<close>, one turn of a loop of
  NodeTransformer.generic_visit on a value with tree \<open>t\<close> copies it so, or raises
  \<^verbatim>\<open>RecursionError\<close> when \<open>t\<close> is deeper than \<open>n\<close>. \<open>items_inv\<close> is the invariant of the
  loop over a list, \<open>fields_post\<close> the result of the loop over the fields.
\<close>

definition copied :: "state \<Rightarrow> bool \<Rightarrow> tree \<Rightarrow> state \<Rightarrow> val \<Rightarrow> tree \<Rightarrow> bool" where
  "copied s item t s' v' t' \<longleftrightarrow>
     prefix (heap s) (heap s') \<and> repr (heap s') item v' t' \<and> shape t' = shape t \<and>
     objects t' \<subseteq> {length (heap s)..<length (heap s')} \<and>
     visited s' = visited s @ map Ref (preorder t)"

definition transforms :: "visitfn \<Rightarrow> nat \<Rightarrow> tree \<Rightarrow> bool" where
  "transforms V n t \<longleftrightarrow>
     (\<forall>s v item. repr (heap s) item v t \<longrightarrow>
        (if depth t \<le> n then
           \<exists>v' s' t'. (if item then transform_item V v s else transform_value V v s) =
                        Some (Inr (v', s')) \<and> copied s item t s' v' t'
         else (if item then transform_item V v s else transform_value V v s) =
                Some (Inl RecursionError)))"

definition items_inv :: "obj list \<Rightarrow> tree list \<Rightarrow> val list \<Rightarrow> state \<Rightarrow> tree list \<Rightarrow> bool" where
  "items_inv h0 ts vis0 s ts' \<longleftrightarrow>
     prefix h0 (heap s) \<and>
     (\<exists>rs. deref (heap s) (length h0) = Some (PyList rs) \<and> list_all2 (repr (heap s) True) rs ts') \<and>
     map shape ts' = map shape ts \<and>
     (\<forall>t' \<in> set ts'. objects t' \<subseteq> {Suc (length h0)..<length (heap s)}) \<and>
     visited s = vis0 @ map Ref (concat (map preorder ts))"

definition fields_post ::
  "state \<Rightarrow> (string \<times> tree) list \<Rightarrow> (string \<times> val) list \<Rightarrow> ((string \<times> val) list) res \<Rightarrow> bool" where
  "fields_post s fs kw res \<longleftrightarrow>
     (\<exists>vs' ts' s'. res = Some (Inr (kw @ zip (map fst fs) vs', s')) \<and>
         prefix (heap s) (heap s') \<and> list_all2 (repr (heap s') False) vs' ts' \<and>
         map shape ts' = map (\<lambda>(k, t). shape t) fs \<and>
         (\<forall>t' \<in> set ts'. objects t' \<subseteq> {length (heap s)..<length (heap s')}) \<and>
         visited s' = visited s @ map Ref (concat (map (\<lambda>(k, t). preorder t) fs)))"

text \<open>
  Frame conditions on a visit: it leaves the store as it is, or it only adds objects
  (every object of the store it started from is unchanged). The handlers of a visitor
  meet such a condition if they do whenever the methods they call back do.
\<close>

definition keeps_heap :: "visitfn \<Rightarrow> bool" where
  "keeps_heap vis \<longleftrightarrow> (\<forall>node s r s'. vis node s = Some (Inr (r, s')) \<longrightarrow> heap s' = heap s)"

definition extends_heap :: "visitfn \<Rightarrow> bool" where
  "extends_heap vis \<longleftrightarrow>
     (\<forall>node s r s'. vis node s = Some (Inr (r, s')) \<longrightarrow> prefix (heap s) (heap s'))"

definition handlers_keep :: "handlers \<Rightarrow> bool" where
  "handlers_keep hs \<longleftrightarrow>
     (\<forall>m h sv gv. hs m = Some h \<longrightarrow> keeps_heap sv \<longrightarrow> keeps_heap gv \<longrightarrow> keeps_heap (h sv gv))"

definition handlers_extend :: "handlers \<Rightarrow> bool" where
  "handlers_extend hs \<longleftrightarrow>
     (\<forall>m h sv gv. hs m = Some h \<longrightarrow> extends_heap sv \<longrightarrow> extends_heap gv \<longrightarrow>
        extends_heap (h sv gv))"

text \<open>
  \<open>outcome vis res P\<close>: the call with result \<open>res\<close> returned what \<open>P\<close> says, unless a
  visit of a child raised or did not return (then the call may do the same).
  \<open>item_result\<close> and \<open>value_result\<close> say what NodeTransformer.generic_visit puts in
  the place of a list item and of a field value; \<open>wf_instance\<close> says that an instance
  has its class's fields as attributes and holds no dangling reference.
\<close>

definition outcome :: "visitfn \<Rightarrow> 'a res \<Rightarrow> ('a \<Rightarrow> state \<Rightarrow> bool) \<Rightarrow> bool" where
  "outcome vis res P \<longleftrightarrow>
     (case res of
        None \<Rightarrow> \<exists>x sa. vis x sa = None
      | Some (Inl e) \<Rightarrow> \<exists>x sa. vis x sa = Some (Inl e)
      | Some (Inr (y, s')) \<Rightarrow> P y s')"

definition item_result :: "visitfn \<Rightarrow> obj list \<Rightarrow> val \<Rightarrow> val \<Rightarrow> bool" where
  "item_result vis h0 x x' \<longleftrightarrow>
     (if isinstance_Node h0 x then \<exists>sa sb. prefix h0 (heap sa) \<and> vis x sa = Some (Inr (x', sb))
      else x' = x)"

definition value_result :: "visitfn \<Rightarrow> obj list \<Rightarrow> val \<Rightarrow> val \<Rightarrow> obj list \<Rightarrow> bool" where
  "value_result vis h0 x x' h' \<longleftrightarrow>
     (if isinstance_list h0 x then
        \<exists>xs l' rs. list_items h0 x = Inr xs \<and> x' = Ref l' \<and> length h0 \<le> l' \<and>
          deref h' l' = Some (PyList rs) \<and> list_all2 (item_result vis h0) xs rs
      else item_result vis h0 x x')"

definition valid_value :: "obj list \<Rightarrow> val \<Rightarrow> bool" where
  "valid_value h x \<longleftrightarrow>
     valid h x \<and> (case list_items h x of Inl e \<Rightarrow> True | Inr xs \<Rightarrow> \<forall>y \<in> set xs. valid h y)"

definition wf_instance :: "obj list \<Rightarrow> addr \<Rightarrow> bool" where
  "wf_instance h a \<longleftrightarrow>
     (case deref h a of
        Some (Instance c attrs) \<Rightarrow>
          map fst attrs = cfields c \<and> distinct (cfields c) \<and>
          (\<forall>(k, x) \<in> set attrs. valid_value h x)
      | _ \<Rightarrow> False)"

definition rebuilt :: "visitfn \<Rightarrow> state \<Rightarrow> addr \<Rightarrow> val \<Rightarrow> state \<Rightarrow> bool" where
  "rebuilt vis s a r s' \<longleftrightarrow>
     prefix (heap s) (heap s') \<and>
     (\<exists>c attrs a' attrs'.
        deref (heap s) a = Some (Instance c attrs) \<and> r = Ref a' \<and> length (heap s) \<le> a' \<and>
        deref (heap s') a' = Some (Instance c attrs') \<and> map fst attrs' = cfields c \<and>
        (\<forall>k \<in> set (cfields c). \<exists>x x'.
           map_of attrs k = Some x \<and> map_of attrs' k = Some x' \<and>
           value_result vis (heap s) x x' (heap s')))"

section \<open>Example classes and stores\<close>

definition Identifier :: pyclass where
  "Identifier = \<lparr>cname = ''Identifier'', bases = [''_Node''], cfields = [''name'']\<rparr>"

definition Call :: pyclass where
  "Call = \<lparr>cname = ''Call'', bases = [''_Node''], cfields = [''func'', ''args'']\<rparr>"

definition Attribute :: pyclass where
  "Attribute = \<lparr>cname = ''Attribute'', bases = [''Identifier'', ''_Node''], cfields = [''name'']\<rparr>"

text \<open>The call \<^verbatim>\<open>f(x, 3)\<close>: \<^verbatim>\<open>Call(func=Identifier('f'), args=[Identifier('x'), 3])\<close>.\<close>

definition call_store :: "obj list" where
  "call_store =
     [Instance Identifier [(''name'', Prim (PyStr ''f''))],
      Instance Identifier [(''name'', Prim (PyStr ''x''))],
      PyList [Ref 1, Prim (PyInt 3)],
      Instance Call [(''func'', Ref 0), (''args'', Ref 2)]]"

definition call_tree :: tree where
  "call_tree =
     TNode 3 Call
       [(''func'', TNode 0 Identifier [(''name'', TLeaf (Prim (PyStr ''f'')))]),
        (''args'', TItems 2 [TNode 1 Identifier [(''name'', TLeaf (Prim (PyStr ''x'')))],
                             TLeaf (Prim (PyInt 3))])]"

text \<open>The call \<^verbatim>\<open>f()\<close>: \<^verbatim>\<open>Call(func=Identifier('f'), args=[])\<close>.\<close>

definition nullary_store :: "obj list" where
  "nullary_store =
     [Instance Identifier [(''name'', Prim (PyStr ''f''))],
      PyList [],
      Instance Call [(''func'', Ref 0), (''args'', Ref 1)]]"

definition nullary_tree :: tree where
  "nullary_tree =
     TNode 2 Call
       [(''func'', TNode 0 Identifier [(''name'', TLeaf (Prim (PyStr ''f'')))]),
        (''args'', TItems 1 [])]"

text \<open>An instance of \<^verbatim>\<open>Attribute\<close>, a subclass of \<^verbatim>\<open>Identifier\<close>.\<close>

definition attribute_store :: "obj list" where
  "attribute_store = [Instance Attribute [(''name'', Prim (PyStr ''a''))]]"

text \<open>A handler that returns \<^verbatim>\<open>True\<close> and calls nothing.\<close>

definition const_handler :: handler where
  "const_handler self_visit self_generic_visit node s = Some (Inr (Prim (PyBool True), s))"

text \<open>A visitor whose only handler is \<^verbatim>\<open>visit_Identifier\<close>, returning \<^verbatim>\<open>True\<close>.\<close>

definition id_handlers :: handlers where
  "id_handlers = [''visit_Identifier'' \<mapsto> const_handler]"

text \<open>A visit that returns \<^verbatim>\<open>True\<close> for every node and does nothing else.\<close>

definition const_visit :: visitfn where
  "const_visit node s = Some (Inr (Prim (PyBool True), s))"

section \<open>Dispatch\<close>

text \<open>
  Claim C4. \<^verbatim>\<open>NodeVisitor.visit\<close> resolves the handler by the name of the node's class.
  If the visitor has a handler \<^verbatim>\<open>visit_<Kind>\<close> for it, the call is the handler's call on
  the node: its result is what \<^verbatim>\<open>visit\<close> returns, and nothing else is run, so the
  children are entered only where the handler calls back. Only without such a handler
  is \<^verbatim>\<open>generic_visit\<close> applied.
\<close>

theorem visit_dispatch:
  assumes "class_name (heap s) node = Inr name"
  shows "(hs (''visit_'' @ name) = Some h \<longrightarrow>
            NodeVisitor_visit hs (Suc n) node s =
              h (NodeVisitor_visit hs n) (generic_visit (NodeVisitor_visit hs n)) node
                (logged s [node])) \<and>
         (hs (''visit_'' @ name) = None \<longrightarrow>
            NodeVisitor_visit hs (Suc n) node s =
              generic_visit (NodeVisitor_visit hs n) node (logged s [node]))"
  using assms by (simp add: NodeVisitor_visit_def logged_def Let_def)

theorem visit_dispatch_witness:
  "class_name (heap \<lparr>heap = call_store, visited = []\<rparr>) (Ref 3) = Inr ''Call'' \<and>
   [''visit_Call'' \<mapsto> const_handler] (''visit_'' @ ''Call'') = Some const_handler \<and>
   NodeVisitor_visit [''visit_Call'' \<mapsto> const_handler] (Suc 4) (Ref 3)
       \<lparr>heap = call_store, visited = []\<rparr> =
     Some (Inr (Prim (PyBool True), \<lparr>heap = call_store, visited = [Ref 3]\<rparr>))"
proof -
  have c: "class_name (heap \<lparr>heap = call_store, visited = []\<rparr>) (Ref 3) = Inr ''Call''"
    by (simp add: call_store_def deref_def Call_def)
  have h: "[''visit_Call'' \<mapsto> const_handler] (''visit_'' @ ''Call'') = Some const_handler"
    by simp
  show ?thesis
    using c h visit_dispatch [OF c, of "[''visit_Call'' \<mapsto> const_handler]" const_handler 4]
    by (simp add: const_handler_def logged_def)
qed

text \<open>
  Claim C10. Dispatch, in both engines (\<open>generic\<close> is either \<^verbatim>\<open>generic_visit\<close>), looks
  at the name of the node's own class only. A handler registered for the class named
  \<open>K\<close> is not what \<^verbatim>\<open>visit\<close> calls on a node whose class has another name, whatever the
  ancestors of that class are (so also for a subclass of \<open>K\<close>): the call goes to the
  handler named after the node's own class if there is one, and to
  \<^verbatim>\<open>generic_visit\<close> otherwise.
\<close>

theorem visit_exact_class_name:
  assumes "type_of (heap s) node = Inr c" and "cname c \<noteq> K"
  shows "visit generic (hs(''visit_'' @ K \<mapsto> h)) (Suc n) node s =
           (case hs (''visit_'' @ cname c) of
              Some h' \<Rightarrow> h' (visit generic (hs(''visit_'' @ K \<mapsto> h)) n)
                            (generic (visit generic (hs(''visit_'' @ K \<mapsto> h)) n))
            | None \<Rightarrow> generic (visit generic (hs(''visit_'' @ K \<mapsto> h)) n))
           node (logged s [node])"
proof -
  from assms(1) obtain a attrs where "node = Ref a" "deref (heap s) a = Some (Instance c attrs)"
    by (cases node) (auto split: option.splits obj.splits)
  then have "class_name (heap s) node = Inr (cname c)"
    by simp
  with assms(2) show ?thesis
    by (simp add: logged_def Let_def split: option.split)
qed

theorem visit_exact_class_name_witness:
  "type_of (heap \<lparr>heap = attribute_store, visited = []\<rparr>) (Ref 0) = Inr Attribute \<and>
   cname Attribute \<noteq> ''Identifier'' \<and> ''Identifier'' \<in> set (bases Attribute) \<and>
   visit generic_visit (Map.empty(''visit_'' @ ''Identifier'' \<mapsto> const_handler)) (Suc 0) (Ref 0)
       \<lparr>heap = attribute_store, visited = []\<rparr> =
     Some (Inr (Prim PyNone, \<lparr>heap = attribute_store, visited = [Ref 0]\<rparr>))"
proof -
  have t: "type_of (heap \<lparr>heap = attribute_store, visited = []\<rparr>) (Ref 0) = Inr Attribute"
    by (simp add: attribute_store_def deref_def)
  have k: "cname Attribute \<noteq> ''Identifier''"
    by (simp add: Attribute_def)
  show ?thesis
    using t k visit_exact_class_name [OF t k, of generic_visit Map.empty const_handler 0]
    by (simp add: Attribute_def attribute_store_def deref_def logged_def generic_visit_def
        yield_field_def)
qed

section \<open>Lemmas on the store and the loops\<close>

lemma and_then_simps [simp]:
  "and_then None k = None"
  "and_then (Some (Inl e)) k = Some (Inl e)"
  "and_then (Some (Inr (x, s))) k = k x s"
  by (simp_all add: and_then_def)

lemma heap_logged [simp]: "heap (logged s xs) = heap s"
  by (simp add: logged_def)

lemma visited_logged [simp]: "visited (logged s xs) = visited s @ xs"
  by (simp add: logged_def)

lemma logged_Nil [simp]: "logged s [] = s"
  by (simp add: logged_def)

lemma logged_logged [simp]: "logged (logged s xs) ys = logged s (xs @ ys)"
  by (simp add: logged_def)

lemma visit_items_step:
  "visit_items vis value i s =
     (case list_items (heap s) value of
        Inl e \<Rightarrow> Some (Inl e)
      | Inr items \<Rightarrow>
          if i < length items then
            and_then (visit_item vis (items ! i) s) (\<lambda>u. visit_items vis value (Suc i))
          else Some (Inr ((), s)))"
  by (subst visit_items.simps)
     (simp add: visit_item_def and_then_def split: sum.split option.split)

lemma visit_fields_step:
  "visit_fields vis node (f # fs) s =
     (case getattr (heap s) node f of
        Inl e \<Rightarrow> Some (Inl e)
      | Inr value \<Rightarrow> and_then (visit_value vis value s) (\<lambda>u. visit_fields vis node fs))"
  by (simp add: yield_field_def visit_value_def visit_item_def and_then_def
      split: sum.split option.split)

lemma visit_items_loop:
  assumes items: "list_items h value = Inr xs"
    and step: "\<And>j s. i \<le> j \<Longrightarrow> j < length xs \<Longrightarrow> heap s = h \<Longrightarrow>
        visit_item vis (xs ! j) s =
          (if ok j then Some (Inr ((), logged s (tr j))) else Some (Inl RecursionError))"
    and s: "heap s = h"
  shows "visit_items vis value i s =
          (if \<forall>j. i \<le> j \<and> j < length xs \<longrightarrow> ok j
           then Some (Inr ((), logged s (concat (map tr [i..<length xs]))))
           else Some (Inl RecursionError))"
  using step s
proof (induction "length xs - i" arbitrary: i s)
  case 0
  then show ?case
    using items by (subst visit_items_step) simp
next
  case (Suc d)
  then have i: "i < length xs" by simp
  have rest: "visit_items vis value (Suc i) s' =
          (if \<forall>j. Suc i \<le> j \<and> j < length xs \<longrightarrow> ok j
           then Some (Inr ((), logged s' (concat (map tr [Suc i..<length xs]))))
           else Some (Inl RecursionError))" if "heap s' = h" for s'
    using Suc.hyps(1)[of "Suc i" s'] Suc.hyps(2) Suc.prems(1) that by simp
  have here: "visit_item vis (xs ! i) s =
          (if ok i then Some (Inr ((), logged s (tr i))) else Some (Inl RecursionError))"
    using Suc.prems(1)[of i s] i Suc.prems(2) by simp
  have split: "(\<forall>j. i \<le> j \<and> j < length xs \<longrightarrow> ok j) \<longleftrightarrow>
      ok i \<and> (\<forall>j. Suc i \<le> j \<and> j < length xs \<longrightarrow> ok j)"
    using i by (metis Suc_leD Suc_leI le_neq_implies_less order_refl)
  show ?case
    using items i here Suc.prems(2)
    by (subst visit_items_step) (simp add: rest split upt_conv_Cons)
qed

lemma visit_fields_loop:
  assumes step: "\<And>k s. k \<in> set ks \<Longrightarrow> heap s = h \<Longrightarrow>
        \<exists>v. getattr h node k = Inr v \<and>
          visit_value vis v s =
            (if ok k then Some (Inr ((), logged s (tr k))) else Some (Inl RecursionError))"
    and s: "heap s = h"
  shows "visit_fields vis node ks s =
          (if \<forall>k \<in> set ks. ok k
           then Some (Inr (Prim PyNone, logged s (concat (map tr ks))))
           else Some (Inl RecursionError))"
  using step s
proof (induction ks arbitrary: s)
  case Nil
  then show ?case by simp
next
  case (Cons k ks)
  from Cons.prems(1)[of k s] Cons.prems(2) obtain v where v: "getattr h node k = Inr v"
    "visit_value vis v s =
       (if ok k then Some (Inr ((), logged s (tr k))) else Some (Inl RecursionError))"
    by auto
  have rest: "visit_fields vis node ks s' =
          (if \<forall>k \<in> set ks. ok k
           then Some (Inr (Prim PyNone, logged s' (concat (map tr ks))))
           else Some (Inl RecursionError))" if "heap s' = h" for s'
    using Cons.IH[of s'] Cons.prems(1) that by simp
  show ?case
    using v Cons.prems(2) by (subst visit_fields_step) (simp add: rest)
qed

lemma foldr_max_le: "foldr max (map f xs) (0::nat) \<le> n \<longleftrightarrow> (\<forall>x \<in> set xs. f x \<le> n)"
  by (induction xs) simp_all

lemma map_nth_upt: "map (\<lambda>j. g (ts ! j)) [0..<length ts] = map g ts"
  by (rule nth_equalityI) simp_all

lemma fields_lookup:
  assumes "map fst attrs = ks" "map fst fs = ks" "distinct ks"
    and "list_all2 R (map snd attrs) (map snd fs)" and "k \<in> set ks"
  shows "\<exists>v t. map_of attrs k = Some v \<and> map_of fs k = Some t \<and> R v t \<and> (k, t) \<in> set fs"
proof -
  from assms(1,5) obtain i where i: "i < length ks" "ks ! i = k"
    by (auto simp: in_set_conv_nth)
  have la: "length attrs = length ks" and lf: "length fs = length ks"
    using assms(1,2) by (auto dest: arg_cong[where f=length])
  have a: "attrs ! i = (k, snd (attrs ! i))"
    using assms(1) i la by (metis nth_map prod.collapse)
  have f: "fs ! i = (k, snd (fs ! i))"
    using assms(2) i lf by (metis nth_map prod.collapse)
  have "map_of attrs k = Some (snd (attrs ! i))"
    using a assms(1,3) i la by (metis map_of_is_SomeI nth_mem)
  moreover have "map_of fs k = Some (snd (fs ! i))"
    using f assms(2,3) i lf by (metis map_of_is_SomeI nth_mem)
  moreover have "R (snd (attrs ! i)) (snd (fs ! i))"
    using assms(4) i la lf by (simp add: list_all2_conv_all_nth)
  moreover have "(k, snd (fs ! i)) \<in> set fs"
    using f i lf by (metis nth_mem)
  ultimately show ?thesis by blast
qed

lemma map_via_map_of:
  assumes "distinct (map fst fs)"
  shows "map (\<lambda>k. g (the (map_of fs k))) (map fst fs) = map (\<lambda>(k, t). g t) fs"
  using assms by (induction fs) (auto simp: rev_image_eqI)

lemma all_via_map_of:
  assumes "distinct (map fst fs)"
  shows "(\<forall>k \<in> set (map fst fs). Q (the (map_of fs k))) \<longleftrightarrow> (\<forall>(k, t) \<in> set fs. Q t)"
  using assms by (induction fs) (auto simp: rev_image_eqI)

lemma visitor_tree:
  "repr (heap s) item v t \<Longrightarrow>
   (if item then visit_item (visit generic_visit Map.empty n) v s
    else visit_value (visit generic_visit Map.empty n) v s) =
   (if depth t \<le> n then Some (Inr ((), logged s (map Ref (preorder t))))
    else Some (Inl RecursionError))"
proof (induction t arbitrary: n s v item)
  case (TLeaf w)
  then show ?case
    by (auto simp: visit_value_def visit_item_def)
next
  case (TNode a c fs)
  from TNode.prems obtain attrs where v: "v = Ref a"
    and d: "deref (heap s) a = Some (Instance c attrs)"
    and c: "subclass_of_Node c" "distinct (cfields c)"
    and k: "map fst attrs = cfields c" "map fst fs = cfields c"
    and r: "list_all2 (repr (heap s) False) (map snd attrs) (map snd fs)"
    by (auto split: option.splits obj.splits)
  have same: "(if item then visit_item vis v s else visit_value vis v s) =
      and_then (vis (Ref a) s) (\<lambda>r s'. Some (Inr ((), s')))" for vis
    using v d c by (simp add: visit_value_def visit_item_def)
  show ?case
  proof (cases n)
    case 0
    then show ?thesis
      unfolding same by simp
  next
    case (Suc m)
    let ?V = "visit generic_visit Map.empty m"
    let ?ok = "\<lambda>k. depth (the (map_of fs k)) \<le> m"
    let ?tr = "\<lambda>k. map Ref (preorder (the (map_of fs k)))"
    have step: "\<exists>x. getattr (heap s) (Ref a) k = Inr x \<and>
          visit_value ?V x s' =
            (if ?ok k then Some (Inr ((), logged s' (?tr k))) else Some (Inl RecursionError))"
      if "k \<in> set (cfields c)" "heap s' = heap s" for k s'
    proof -
      from fields_lookup[OF k c(2) r that(1)] obtain x t where
        x: "map_of attrs k = Some x" "map_of fs k = Some t" "repr (heap s) False x t"
           "(k, t) \<in> set fs"
        by blast
      have "visit_value ?V x s' =
          (if depth t \<le> m then Some (Inr ((), logged s' (map Ref (preorder t))))
           else Some (Inl RecursionError))"
        using TNode.IH[of "(k, t)" t s' False x m] x that(2) by simp
      then show ?thesis
        using x d by simp
    qed
    have fields: "visit_fields ?V (Ref a) (cfields c) (logged s [Ref a]) =
          (if \<forall>k \<in> set (cfields c). ?ok k
           then Some (Inr (Prim PyNone, logged (logged s [Ref a]) (concat (map ?tr (cfields c)))))
           else Some (Inl RecursionError))"
      by (rule visit_fields_loop[where h = "heap s"]) (use step in auto)
    have dist: "distinct (map fst fs)"
      using k c by simp
    have tr: "concat (map ?tr (cfields c)) = map Ref (concat (map (\<lambda>(k, t). preorder t) fs))"
      using map_via_map_of[OF dist, of "\<lambda>t. map Ref (preorder t)"] k
      by (simp add: map_concat case_prod_unfold comp_def)
    have ok: "(\<forall>k \<in> set (cfields c). ?ok k) \<longleftrightarrow> depth (TNode a c fs) \<le> n"
      using all_via_map_of[OF dist, of "\<lambda>t. depth t \<le> m"] k Suc
      by (simp add: foldr_max_le case_prod_unfold)
    have "visit generic_visit Map.empty n (Ref a) s =
        visit_fields ?V (Ref a) (cfields c) (logged s [Ref a])"
      using Suc d by (simp add: generic_visit_def logged_def)
    then show ?thesis
      unfolding same using fields tr ok by simp
  qed
next
  case (TItems l ts)
  from TItems.prems obtain xs where v: "v = Ref l" "\<not> item"
    and d: "deref (heap s) l = Some (PyList xs)"
    and r: "list_all2 (repr (heap s) True) xs ts"
    by (auto split: option.splits obj.splits)
  let ?V = "visit generic_visit Map.empty n"
  have len: "length xs = length ts"
    using r by (rule list_all2_lengthD)
  have step: "visit_item ?V (xs ! j) s' =
      (if depth (ts ! j) \<le> n then Some (Inr ((), logged s' (map Ref (preorder (ts ! j)))))
       else Some (Inl RecursionError))"
    if "j < length xs" "heap s' = heap s" for j s'
    using TItems.IH[of "ts ! j" s' True "xs ! j" n] r that len
    by (simp add: list_all2_conv_all_nth)
  have "visit_items ?V (Ref l) 0 s =
      (if \<forall>j. 0 \<le> j \<and> j < length xs \<longrightarrow> depth (ts ! j) \<le> n
       then Some (Inr ((), logged s (concat (map (\<lambda>j. map Ref (preorder (ts ! j))) [0..<length xs]))))
       else Some (Inl RecursionError))"
    by (rule visit_items_loop[where h = "heap s"]) (use d step in auto)
  moreover have "(\<forall>j. 0 \<le> j \<and> j < length xs \<longrightarrow> depth (ts ! j) \<le> n) \<longleftrightarrow> depth (TItems l ts) \<le> n"
    using len by (simp add: foldr_max_le all_set_conv_all_nth)
  moreover have "concat (map (\<lambda>j. map Ref (preorder (ts ! j))) [0..<length xs]) =
      map Ref (preorder (TItems l ts))"
    using map_nth_upt[of "\<lambda>t. map Ref (preorder t)" ts] len by (simp add: map_concat comp_def)
  ultimately show ?case
    using v d by (simp add: visit_value_def)
qed

lemma transform_items_step:
  "transform_items vis value i new_val s =
     (case list_items (heap s) value of
        Inl e \<Rightarrow> Some (Inl e)
      | Inr items \<Rightarrow>
          if i < length items then
            and_then (transform_item vis (items ! i) s)
              (\<lambda>r s'. case list_append new_val r s' of
                         Inl e \<Rightarrow> Some (Inl e)
                       | Inr s'' \<Rightarrow> transform_items vis value (Suc i) new_val s'')
          else Some (Inr ((), s)))"
  by (subst transform_items.simps)
     (simp add: transform_item_def and_then_def split: sum.split option.split)

lemma transform_fields_step:
  "transform_fields vis node (f # fs) kw s =
     (case getattr (heap s) node f of
        Inl e \<Rightarrow> Some (Inl e)
      | Inr value \<Rightarrow>
          and_then (transform_value vis value s)
            (\<lambda>new_val. transform_fields vis node fs (AList.update f new_val kw)))"
  by (simp add: yield_field_def transform_value_def transform_item_def and_then_def alloc_def
      split: sum.split option.split prod.split)

lemma deref_prefix: "prefix h h' \<Longrightarrow> deref h a = Some ob \<Longrightarrow> deref h' a = Some ob"
  by (auto simp: deref_def prefix_def nth_append split: if_splits)

lemma deref_Some_less: "deref h a = Some ob \<Longrightarrow> a < length h"
  by (simp add: deref_def split: if_splits)

lemma valid_deref: "valid h (Ref a) \<Longrightarrow> \<exists>ob. deref h a = Some ob"
  by (simp add: valid_def deref_def)

lemma leaf_prefix:
  assumes "prefix h h'" "valid h v"
  shows "valid h' v" "isinstance_Node h' v = isinstance_Node h v"
    "isinstance_list h' v = isinstance_list h v"
proof -
  show "valid h' v"
    using assms by (auto simp: valid_def prefix_def split: val.splits)
  show "isinstance_Node h' v = isinstance_Node h v"
  proof (cases v)
    case (Ref a)
    with assms(2) obtain ob where "deref h a = Some ob" using valid_deref by blast
    with deref_prefix[OF assms(1) this] Ref show ?thesis by simp
  qed simp
  show "isinstance_list h' v = isinstance_list h v"
  proof (cases v)
    case (Ref a)
    with assms(2) obtain ob where "deref h a = Some ob" using valid_deref by blast
    with deref_prefix[OF assms(1) this] Ref show ?thesis by simp
  qed simp
qed

lemma repr_prefix: "repr h item v t \<Longrightarrow> prefix h h' \<Longrightarrow> repr h' item v t"
proof (induction t arbitrary: item v)
  case (TLeaf w)
  then show ?case
    using leaf_prefix[of h h' v] by auto
next
  case (TNode a c fs)
  from TNode.prems(1) obtain attrs where d: "deref h a = Some (Instance c attrs)"
    by (auto split: option.splits obj.splits)
  have "list_all2 (repr h' False) (map snd attrs) (map snd fs)"
    if "list_all2 (repr h False) (map snd attrs) (map snd fs)"
    using that
  proof (rule list.rel_mono_strong)
    fix x t assume "x \<in> set (map snd attrs)" "t \<in> set (map snd fs)" "repr h False x t"
    then show "repr h' False x t"
      using TNode.IH[of _ t False x] TNode.prems(2) by auto
  qed
  then show ?case
    using TNode.prems(1) d deref_prefix[OF TNode.prems(2) d] by simp
next
  case (TItems l ts)
  from TItems.prems(1) obtain xs where d: "deref h l = Some (PyList xs)"
    by (auto split: option.splits obj.splits)
  have "list_all2 (repr h' True) xs ts" if "list_all2 (repr h True) xs ts"
    using that
  proof (rule list.rel_mono_strong)
    fix x t assume "x \<in> set xs" "t \<in> set ts" "repr h True x t"
    then show "repr h' True x t"
      using TItems.IH[of t True x] TItems.prems(2) by auto
  qed
  then show ?case
    using TItems.prems(1) d deref_prefix[OF TItems.prems(2) d] by simp
qed

lemma deref_update:
  "deref (h[a := ob]) b = (if b = a \<and> a < length h then Some ob else deref h b)"
  by (simp add: deref_def)

lemma leaf_update:
  assumes "deref h a = Some (PyList xs)"
  shows "valid (h[a := PyList ys]) v = valid h v"
    "isinstance_Node (h[a := PyList ys]) v = isinstance_Node h v"
    "isinstance_list (h[a := PyList ys]) v = isinstance_list h v"
  using assms by (cases v; auto simp: valid_def deref_update dest: deref_Some_less)+

lemma repr_update:
  "repr h item v t \<Longrightarrow> deref h a = Some (PyList xs) \<Longrightarrow> a \<notin> objects t \<Longrightarrow>
   repr (h[a := PyList ys]) item v t"
proof (induction t arbitrary: item v)
  case (TLeaf w)
  then show ?case
    using leaf_update[of h a xs ys v] by auto
next
  case (TNode b c fs)
  from TNode.prems(1) obtain attrs where d: "deref h b = Some (Instance c attrs)"
    by (auto split: option.splits obj.splits)
  have ne: "b \<noteq> a" using TNode.prems(3) by simp
  have "list_all2 (repr (h[a := PyList ys]) False) (map snd attrs) (map snd fs)"
    if "list_all2 (repr h False) (map snd attrs) (map snd fs)"
    using that
  proof (rule list.rel_mono_strong)
    fix x t assume "x \<in> set (map snd attrs)" "t \<in> set (map snd fs)" "repr h False x t"
    then show "repr (h[a := PyList ys]) False x t"
      using TNode.IH[of _ t False x] TNode.prems(2,3) by fastforce
  qed
  then show ?case
    using TNode.prems(1) d ne by (simp add: deref_update)
next
  case (TItems l ts)
  from TItems.prems(1) obtain zs where d: "deref h l = Some (PyList zs)"
    by (auto split: option.splits obj.splits)
  have ne: "l \<noteq> a" using TItems.prems(3) by simp
  have "list_all2 (repr (h[a := PyList ys]) True) zs ts" if "list_all2 (repr h True) zs ts"
    using that
  proof (rule list.rel_mono_strong)
    fix x t assume "x \<in> set zs" "t \<in> set ts" "repr h True x t"
    then show "repr (h[a := PyList ys]) True x t"
      using TItems.IH[of t True x] TItems.prems(2,3) by fastforce
  qed
  then show ?case
    using TItems.prems(1) d ne by (simp add: deref_update)
qed

lemma update_fresh_key: "k \<notin> fst ` set kw \<Longrightarrow> AList.update k v kw = kw @ [(k, v)]"
  by (induction kw) auto

lemma bind_args_self:
  "\<forall>(k, v) \<in> set kw'. map_of kw k = Some v \<Longrightarrow> bind_args cn (map fst kw') kw = Inr kw'"
  by (induction kw') auto

lemma construct_ok:
  assumes "map fst kw = cfields c" "distinct (cfields c)"
  shows "construct c kw s =
    Some (Inr (Ref (length (heap s)), s\<lparr>heap := heap s @ [Instance c kw]\<rparr>))"
proof -
  have "bind_args (cname c) (map fst kw) kw = Inr kw"
    using assms by (intro bind_args_self) auto
  moreover have "filter (\<lambda>k. k \<notin> set (cfields c)) (map fst kw) = []"
    using assms(1) by (metis (mono_tags, lifting) filter_False)
  ultimately show ?thesis
    using assms(1) by (simp add: construct_def alloc_def)
qed

lemma prefix_update: "prefix h h' \<Longrightarrow> length h \<le> a \<Longrightarrow> prefix h (h'[a := ob])"
  by (auto simp: prefix_def list_update_append)

lemma prefix_nth: "prefix h h' \<Longrightarrow> a < length h \<Longrightarrow> h' ! a = h ! a"
  by (auto simp: prefix_def nth_append)

lemma transform_items_loop:
  assumes IH: "\<And>t. t \<in> set ts \<Longrightarrow> transforms V n t"
    and d: "deref h0 l = Some (PyList xs)"
    and r: "list_all2 (repr h0 True) xs ts"
  shows "i \<le> length ts \<Longrightarrow> items_inv h0 (take i ts) vis0 s ts' \<Longrightarrow>
    (if \<forall>t \<in> set (drop i ts). depth t \<le> n then
       \<exists>s' ts''. transform_items V (Ref l) i (length h0) s = Some (Inr ((), s')) \<and>
                  items_inv h0 ts vis0 s' ts''
     else transform_items V (Ref l) i (length h0) s = Some (Inl RecursionError))"
proof (induction "length ts - i" arbitrary: i s ts')
  case 0
  then have i: "i = length ts" by simp
  have len: "length xs = length ts"
    using r by (rule list_all2_lengthD)
  from 0(3) have "prefix h0 (heap s)" by (simp add: items_inv_def)
  then have "list_items (heap s) (Ref l) = Inr xs"
    using deref_prefix[OF _ d] by simp
  then have "transform_items V (Ref l) i (length h0) s = Some (Inr ((), s))"
    using i len by (subst transform_items_step) simp
  then show ?case
    using 0(3) i by auto
next
  case (Suc k)
  then have i: "i < length ts" by simp
  have len: "length xs = length ts"
    using r by (rule list_all2_lengthD)
  from Suc.prems(2) obtain rs where
    p: "prefix h0 (heap s)" and
    rs: "deref (heap s) (length h0) = Some (PyList rs)" "list_all2 (repr (heap s) True) rs ts'" and
    sh: "map shape ts' = map shape (take i ts)" and
    ob: "\<forall>t' \<in> set ts'. objects t' \<subseteq> {Suc (length h0)..<length (heap s)}" and
    vi: "visited s = vis0 @ map Ref (concat (map preorder (take i ts)))"
    by (auto simp: items_inv_def)
  have items: "list_items (heap s) (Ref l) = Inr xs"
    using deref_prefix[OF p d] by simp
  have rx: "repr (heap s) True (xs ! i) (ts ! i)"
    using r i len p by (auto simp: list_all2_conv_all_nth intro: repr_prefix)
  have tr: "transforms V n (ts ! i)"
    using IH i by simp
  have dr: "drop i ts = ts ! i # drop (Suc i) ts"
    using i by (simp add: Cons_nth_drop_Suc)
  show ?case
  proof (cases "depth (ts ! i) \<le> n")
    case False
    then have "transform_item V (xs ! i) s = Some (Inl RecursionError)"
      using tr rx unfolding transforms_def by (metis (full_types))
    then have "transform_items V (Ref l) i (length h0) s = Some (Inl RecursionError)"
      using items i len by (subst transform_items_step) simp
    then show ?thesis
      using False dr by simp
  next
    case True
    then obtain x' s1 t1 where
      x: "transform_item V (xs ! i) s = Some (Inr (x', s1))" and c: "copied s True (ts ! i) s1 x' t1"
      using tr rx unfolding transforms_def by (metis (full_types))
    from c have p1: "prefix (heap s) (heap s1)" and r1: "repr (heap s1) True x' t1"
      and sh1: "shape t1 = shape (ts ! i)"
      and ob1: "objects t1 \<subseteq> {length (heap s)..<length (heap s1)}"
      and vi1: "visited s1 = visited s @ map Ref (preorder (ts ! i))"
      by (auto simp: copied_def)
    have rs1: "deref (heap s1) (length h0) = Some (PyList rs)"
      using deref_prefix[OF p1 rs(1)] .
    define s2 where "s2 = s1\<lparr>heap := (heap s1)[length h0 := PyList (rs @ [x'])]\<rparr>"
    have app: "list_append (length h0) x' s1 = Inr s2"
      using rs1 by (simp add: list_append_def s2_def)
    have l0: "length h0 < length (heap s)"
      using rs(1) by (rule deref_Some_less)
    have l1: "length (heap s) \<le> length (heap s1)"
      using p1 by (rule prefix_length_le)
    have "prefix h0 (heap s1)"
      using p p1 by (rule prefix_order.trans)
    then have p2: "prefix h0 (heap s2)"
      by (simp add: s2_def prefix_update)
    have d2: "deref (heap s2) (length h0) = Some (PyList (rs @ [x']))"
      using l0 l1 by (simp add: s2_def deref_def)
    have old: "list_all2 (repr (heap s2) True) rs ts'"
      using rs(2)
    proof (rule list.rel_mono_strong)
      fix y t assume "y \<in> set rs" "t \<in> set ts'" "repr (heap s) True y t"
      then have "repr (heap s1) True y t"
        using p1 by (auto intro: repr_prefix)
      moreover have "length h0 \<notin> objects t"
      proof
        assume "length h0 \<in> objects t"
        with ob \<open>t \<in> set ts'\<close> have "length h0 \<in> {Suc (length h0)..<length (heap s)}"
          by blast
        then show False by simp
      qed
      ultimately have "repr (heap s1) True y t" "length h0 \<notin> objects t"
        by simp_all
      then show "repr (heap s2) True y t"
        using rs1 by (simp add: s2_def repr_update)
    qed
    have "length h0 \<notin> objects t1"
      using ob1 l0 by auto
    then have new: "repr (heap s2) True x' t1"
      using r1 rs1 by (simp add: s2_def repr_update)
    have all2: "list_all2 (repr (heap s2) True) (rs @ [x']) (ts' @ [t1])"
      using old new by (simp add: list_all2_appendI)
    have tk: "take (Suc i) ts = take i ts @ [ts ! i]"
      using i by (simp add: take_Suc_conv_app_nth)
    have inv2: "items_inv h0 (take (Suc i) ts) vis0 s2 (ts' @ [t1])"
      unfolding items_inv_def
    proof (intro conjI)
      show "prefix h0 (heap s2)" by (rule p2)
      show "\<exists>rs. deref (heap s2) (length h0) = Some (PyList rs) \<and>
          list_all2 (repr (heap s2) True) rs (ts' @ [t1])"
        using d2 all2 by blast
      show "map shape (ts' @ [t1]) = map shape (take (Suc i) ts)"
        using sh sh1 tk by simp
      show "\<forall>t' \<in> set (ts' @ [t1]). objects t' \<subseteq> {Suc (length h0)..<length (heap s2)}"
        using ob ob1 l0 l1 unfolding subset_eq by (fastforce simp: s2_def)
      show "visited s2 = vis0 @ map Ref (concat (map preorder (take (Suc i) ts)))"
        using vi vi1 tk by (simp add: s2_def)
    qed
    have step: "transform_items V (Ref l) i (length h0) s =
        transform_items V (Ref l) (Suc i) (length h0) s2"
      using items i len x app by (subst transform_items_step) simp
    have rest: "(if \<forall>t \<in> set (drop (Suc i) ts). depth t \<le> n then
       \<exists>s' ts''. transform_items V (Ref l) (Suc i) (length h0) s2 = Some (Inr ((), s')) \<and>
                  items_inv h0 ts vis0 s' ts''
       else transform_items V (Ref l) (Suc i) (length h0) s2 = Some (Inl RecursionError))"
    proof -
      have kk: "k = length ts - Suc i" using Suc.hyps(2) by simp
      have le: "Suc i \<le> length ts" using i by simp
      show ?thesis by (rule Suc.hyps(1)[OF kk le inv2])
    qed
    show ?thesis
      using True rest unfolding step dr by simp
  qed
qed

lemma transform_fields_loop:
  assumes IH: "\<And>k t. (k, t) \<in> set fs \<Longrightarrow> transforms V n t"
    and attrs: "list_all2 (\<lambda>x (k, t). (\<forall>h'. prefix h0 h' \<longrightarrow> getattr h' node k = Inr x) \<and>
                  repr h0 False x t) vs fs"
    and dist: "distinct (map fst kw @ map fst fs)"
    and p: "prefix h0 (heap s)"
  shows "(if \<forall>(k, t) \<in> set fs. depth t \<le> n
          then fields_post s fs kw (transform_fields V node (map fst fs) kw s)
          else transform_fields V node (map fst fs) kw s = Some (Inl RecursionError))"
  using IH attrs dist p
proof (induction fs arbitrary: vs kw s)
  case Nil
  then show ?case by (simp add: fields_post_def)
next
  case (Cons f fs)
  obtain k t where f: "f = (k, t)" by (cases f)
  from Cons.prems(2) f obtain x vs0 where vs: "vs = x # vs0"
    and gx: "\<forall>h'. prefix h0 h' \<longrightarrow> getattr h' node k = Inr x"
    and rx: "repr h0 False x t"
    and rest: "list_all2 (\<lambda>x (k, t). (\<forall>h'. prefix h0 h' \<longrightarrow> getattr h' node k = Inr x) \<and>
                  repr h0 False x t) vs0 fs"
    by (auto simp: list_all2_Cons2)
  have g: "getattr (heap s) node k = Inr x"
    using gx Cons.prems(4) by simp
  have r: "repr (heap s) False x t"
    using rx Cons.prems(4) by (rule repr_prefix)
  have tr: "transforms V n t"
    using Cons.prems(1)[of k t] f by simp
  show ?case
  proof (cases "depth t \<le> n")
    case False
    then have "transform_value V x s = Some (Inl RecursionError)"
      using tr r unfolding transforms_def by (metis (full_types))
    then have "transform_fields V node (map fst (f # fs)) kw s = Some (Inl RecursionError)"
      using g f by (simp add: transform_fields_step del: transform_fields.simps)
    then show ?thesis
      using False f by simp
  next
    case True
    then obtain x' s1 t1 where
      x: "transform_value V x s = Some (Inr (x', s1))" and c: "copied s False t s1 x' t1"
      using tr r unfolding transforms_def by (metis (full_types))
    from c have p1: "prefix (heap s) (heap s1)" and r1: "repr (heap s1) False x' t1"
      and sh1: "shape t1 = shape t"
      and ob1: "objects t1 \<subseteq> {length (heap s)..<length (heap s1)}"
      and vi1: "visited s1 = visited s @ map Ref (preorder t)"
      by (auto simp: copied_def)
    have fresh: "k \<notin> fst ` set kw"
      using Cons.prems(3) f by auto
    have step: "transform_fields V node (map fst (f # fs)) kw s =
        transform_fields V node (map fst fs) (kw @ [(k, x')]) s1"
      using g f x by (simp add: transform_fields_step update_fresh_key[OF fresh]
          del: transform_fields.simps)
    have d1: "distinct (map fst (kw @ [(k, x')]) @ map fst fs)"
      using Cons.prems(3) f by auto
    have p01: "prefix h0 (heap s1)"
      using Cons.prems(4) p1 by (rule prefix_order.trans)
    have ih: "(if \<forall>(k, t) \<in> set fs. depth t \<le> n
          then fields_post s1 fs (kw @ [(k, x')])
                 (transform_fields V node (map fst fs) (kw @ [(k, x')]) s1)
          else transform_fields V node (map fst fs) (kw @ [(k, x')]) s1 =
                 Some (Inl RecursionError))"
      by (rule Cons.IH[OF _ rest d1 p01]) (use Cons.prems(1) in auto)
    show ?thesis
    proof (cases "\<forall>(k, t) \<in> set fs. depth t \<le> n")
      case False
      then show ?thesis
        using ih step f by auto
    next
      case all: True
      with ih obtain vs' ts' s' where
        res: "transform_fields V node (map fst fs) (kw @ [(k, x')]) s1 =
                Some (Inr ((kw @ [(k, x')]) @ zip (map fst fs) vs', s'))" and
        p2: "prefix (heap s1) (heap s')" and
        r2: "list_all2 (repr (heap s') False) vs' ts'" and
        sh2: "map shape ts' = map (\<lambda>(k, t). shape t) fs" and
        ob2: "\<forall>t' \<in> set ts'. objects t' \<subseteq> {length (heap s1)..<length (heap s')}" and
        vi2: "visited s' = visited s1 @ map Ref (concat (map (\<lambda>(k, t). preorder t) fs))"
        by (auto simp: fields_post_def)
      have l1: "length (heap s) \<le> length (heap s1)"
        using p1 by (rule prefix_length_le)
      have l2: "length (heap s1) \<le> length (heap s')"
        using p2 by (rule prefix_length_le)
      have "fields_post s (f # fs) kw (transform_fields V node (map fst (f # fs)) kw s)"
        unfolding fields_post_def
      proof (intro exI conjI)
        show "transform_fields V node (map fst (f # fs)) kw s =
          Some (Inr (kw @ zip (map fst (f # fs)) (x' # vs'), s'))"
          using step res f by simp
        show "prefix (heap s) (heap s')"
          using p1 p2 by (rule prefix_order.trans)
        show "list_all2 (repr (heap s') False) (x' # vs') (t1 # ts')"
          using r2 repr_prefix[OF r1 p2] by simp
        show "map shape (t1 # ts') = map (\<lambda>(k, t). shape t) (f # fs)"
          using sh1 sh2 f by simp
        show "\<forall>t' \<in> set (t1 # ts'). objects t' \<subseteq> {length (heap s)..<length (heap s')}"
          using ob1 ob2 l1 l2 unfolding subset_eq by fastforce
        show "visited s' =
          visited s @ map Ref (concat (map (\<lambda>(k, t). preorder t) (f # fs)))"
          using vi1 vi2 f by simp
      qed
      moreover have "\<forall>(k, t) \<in> set (f # fs). depth t \<le> n"
        using True all f by simp
      ultimately show ?thesis
        by (simp del: transform_fields.simps)
    qed
  qed
qed

lemma attrs_getattr:
  assumes d: "deref h a = Some (Instance c attrs)"
    and k: "map fst attrs = cfields c" "map fst fs = cfields c" "distinct (cfields c)"
    and r: "list_all2 (repr h False) (map snd attrs) (map snd fs)"
  shows "list_all2 (\<lambda>x (k, t). (\<forall>h'. prefix h h' \<longrightarrow> getattr h' (Ref a) k = Inr x) \<and>
                  repr h False x t) (map snd attrs) fs"
proof -
  have la: "length attrs = length fs"
    using k(1,2) by (metis length_map)
  show ?thesis
    unfolding list_all2_conv_all_nth
  proof (intro conjI allI impI)
    show "length (map snd attrs) = length fs" using la by simp
  next
    fix j assume "j < length (map snd attrs)"
    then have j: "j < length attrs" "j < length fs" using la by simp_all
    have fj: "fst (attrs ! j) = fst (fs ! j)"
      using k(1,2) j by (metis nth_map)
    have mem: "(fst (fs ! j), snd (attrs ! j)) \<in> set attrs"
      using j fj by (metis nth_mem prod.collapse)
    have "distinct (map fst attrs)" using k by simp
    then have m: "map_of attrs (fst (fs ! j)) = Some (snd (attrs ! j))"
      using mem by (rule map_of_is_SomeI)
    have g: "getattr h' (Ref a) (fst (fs ! j)) = Inr (snd (attrs ! j))" if "prefix h h'" for h'
      using deref_prefix[OF that d] m by simp
    have "repr h False (snd (attrs ! j)) (snd (fs ! j))"
      using r j la by (auto simp: list_all2_conv_all_nth)
    then show "case fs ! j of (k, t) \<Rightarrow>
        (\<forall>h'. prefix h h' \<longrightarrow> getattr h' (Ref a) k = Inr (map snd attrs ! j)) \<and>
        repr h False (map snd attrs ! j) t"
      using g j by (simp add: case_prod_unfold)
  qed
qed

lemma zip_fields_shape:
  assumes "map shape ts' = map (\<lambda>(k, t). shape t) fs"
  shows "map (\<lambda>(k, t). (k, shape t)) (zip (map fst fs) ts') = map (\<lambda>(k, t). (k, shape t)) fs"
proof (rule nth_equalityI)
  have len: "length ts' = length fs"
    using assms by (metis length_map)
  then show "length (map (\<lambda>(k, t). (k, shape t)) (zip (map fst fs) ts')) =
      length (map (\<lambda>(k, t). (k, shape t)) fs)"
    by simp
  fix i assume "i < length (map (\<lambda>(k, t). (k, shape t)) (zip (map fst fs) ts'))"
  then have i: "i < length fs" "i < length ts'" using len by simp_all
  have "shape (ts' ! i) = shape (snd (fs ! i))"
    using assms i by (metis (mono_tags, lifting) case_prod_unfold nth_map)
  then show "map (\<lambda>(k, t). (k, shape t)) (zip (map fst fs) ts') ! i =
      map (\<lambda>(k, t). (k, shape t)) fs ! i"
    using i by (simp add: case_prod_unfold)
qed

lemma transformer_tree:
  "transforms (visit NodeTransformer_generic_visit Map.empty n) n t"
proof (induction t arbitrary: n)
  case (TLeaf w)
  show ?case
    unfolding transforms_def
  proof (intro allI impI)
    fix s :: state and v item
    assume rp: "repr (heap s) item v (TLeaf w)"
    then have x: "(if item then transform_item (visit NodeTransformer_generic_visit Map.empty n) v s
           else transform_value (visit NodeTransformer_generic_visit Map.empty n) v s) =
        Some (Inr (v, s))"
      by (auto simp: transform_value_def transform_item_def)
    have "copied s item (TLeaf w) s v (TLeaf w)"
      using rp by (auto simp: copied_def)
    then show "if depth (TLeaf w) \<le> n
       then \<exists>v' s' t'. (if item then transform_item (visit NodeTransformer_generic_visit Map.empty n) v s
           else transform_value (visit NodeTransformer_generic_visit Map.empty n) v s) =
                Some (Inr (v', s')) \<and> copied s item (TLeaf w) s' v' t'
       else (if item then transform_item (visit NodeTransformer_generic_visit Map.empty n) v s
           else transform_value (visit NodeTransformer_generic_visit Map.empty n) v s) =
                Some (Inl RecursionError)"
      using x by auto
  qed
next
  case (TItems l ts)
  let ?V = "visit NodeTransformer_generic_visit Map.empty n"
  show ?case
    unfolding transforms_def
  proof (intro allI impI)
    fix s :: state and v item
    assume rp: "repr (heap s) item v (TItems l ts)"
    then obtain xs where v: "v = Ref l" "\<not> item"
      and d: "deref (heap s) l = Some (PyList xs)"
      and r: "list_all2 (repr (heap s) True) xs ts"
      by (auto split: option.splits obj.splits)
    define s1 where "s1 = s\<lparr>heap := heap s @ [PyList []]\<rparr>"
    have tv: "transform_value ?V v s =
        and_then (transform_items ?V (Ref l) 0 (length (heap s)) s1)
          (\<lambda>u s2. Some (Inr (Ref (length (heap s)), s2)))"
      using v d by (simp add: transform_value_def alloc_def s1_def)
    have inv0: "items_inv (heap s) (take 0 ts) (visited s) s1 []"
      by (simp add: items_inv_def s1_def deref_def)
    have loop: "(if \<forall>t \<in> set (drop 0 ts). depth t \<le> n then
       \<exists>s' ts''. transform_items ?V (Ref l) 0 (length (heap s)) s1 = Some (Inr ((), s')) \<and>
                  items_inv (heap s) ts (visited s) s' ts''
       else transform_items ?V (Ref l) 0 (length (heap s)) s1 = Some (Inl RecursionError))"
      by (rule transform_items_loop[OF _ d r _ inv0]) (use TItems.IH in auto)
    have dp: "depth (TItems l ts) \<le> n \<longleftrightarrow> (\<forall>t \<in> set (drop 0 ts). depth t \<le> n)"
      by (simp add: foldr_max_le)
    show "if depth (TItems l ts) \<le> n
       then \<exists>v' s' t'. (if item then transform_item ?V v s else transform_value ?V v s) =
                Some (Inr (v', s')) \<and> copied s item (TItems l ts) s' v' t'
       else (if item then transform_item ?V v s else transform_value ?V v s) =
                Some (Inl RecursionError)"
    proof (cases "depth (TItems l ts) \<le> n")
      case False
      then show ?thesis
        using loop dp v tv by simp
    next
      case True
      with loop dp obtain s' ts'' where
        res: "transform_items ?V (Ref l) 0 (length (heap s)) s1 = Some (Inr ((), s'))" and
        inv: "items_inv (heap s) ts (visited s) s' ts''"
        by auto
      from inv obtain rs where
        p: "prefix (heap s) (heap s')" and
        rs: "deref (heap s') (length (heap s)) = Some (PyList rs)"
            "list_all2 (repr (heap s') True) rs ts''" and
        sh: "map shape ts'' = map shape ts" and
        ob: "\<forall>t' \<in> set ts''. objects t' \<subseteq> {Suc (length (heap s))..<length (heap s')}" and
        vi: "visited s' = visited s @ map Ref (concat (map preorder ts))"
        by (auto simp: items_inv_def)
      have lt: "length (heap s) < length (heap s')"
        using rs(1) by (rule deref_Some_less)
      have "copied s item (TItems l ts) s' (Ref (length (heap s))) (TItems (length (heap s)) ts'')"
        unfolding copied_def
      proof (intro conjI)
        show "prefix (heap s) (heap s')" by (rule p)
        show "repr (heap s') item (Ref (length (heap s))) (TItems (length (heap s)) ts'')"
          using rs v by simp
        show "shape (TItems (length (heap s)) ts'') = shape (TItems l ts)"
          using sh by simp
        show "objects (TItems (length (heap s)) ts'') \<subseteq> {length (heap s)..<length (heap s')}"
          using ob lt unfolding subset_eq by fastforce
        show "visited s' = visited s @ map Ref (preorder (TItems l ts))"
          using vi by simp
      qed
      then show ?thesis
        using True v tv res by auto
    qed
  qed
next
  case (TNode a c fs)
  show ?case
    unfolding transforms_def
  proof (intro allI impI)
    fix s :: state and v item
    assume rp: "repr (heap s) item v (TNode a c fs)"
    then obtain attrs where v: "v = Ref a"
      and d: "deref (heap s) a = Some (Instance c attrs)"
      and c: "subclass_of_Node c" "distinct (cfields c)"
      and k: "map fst attrs = cfields c" "map fst fs = cfields c"
      and r: "list_all2 (repr (heap s) False) (map snd attrs) (map snd fs)"
      by (auto split: option.splits obj.splits)
    let ?X = "\<lambda>V. (if item then transform_item V v s else transform_value V v s)"
    have same: "?X V = V (Ref a) s" for V
      using v d c by (simp add: transform_value_def transform_item_def)
    show "if depth (TNode a c fs) \<le> n
       then \<exists>v' s' t'. ?X (visit NodeTransformer_generic_visit Map.empty n) =
                Some (Inr (v', s')) \<and> copied s item (TNode a c fs) s' v' t'
       else ?X (visit NodeTransformer_generic_visit Map.empty n) = Some (Inl RecursionError)"
    proof (cases n)
      case 0
      then show ?thesis
        unfolding same by simp
    next
      case (Suc m)
      let ?V = "visit NodeTransformer_generic_visit Map.empty m"
      define s1 where "s1 = logged s [Ref a]"
      have vis: "visit NodeTransformer_generic_visit Map.empty n (Ref a) s =
          and_then (transform_fields ?V (Ref a) (map fst fs) [] s1)
            (\<lambda>new_kwargs s'.
               (case type_of (heap s') (Ref a) of
                  Inl e \<Rightarrow> Some (Inl e)
                | Inr c \<Rightarrow> construct c new_kwargs s'))"
        using Suc d k by (simp add: NodeTransformer_generic_visit_def logged_def s1_def)
      have loop: "(if \<forall>(k, t) \<in> set fs. depth t \<le> m
          then fields_post s1 fs [] (transform_fields ?V (Ref a) (map fst fs) [] s1)
          else transform_fields ?V (Ref a) (map fst fs) [] s1 = Some (Inl RecursionError))"
      proof (rule transform_fields_loop[where ?h0.0 = "heap s" and vs = "map snd attrs"])
        show "transforms ?V m t" if "(k, t) \<in> set fs" for k t
          using TNode.IH[of "(k, t)" t m] that by simp
        show "list_all2 (\<lambda>x (k, t). (\<forall>h'. prefix (heap s) h' \<longrightarrow> getattr h' (Ref a) k = Inr x) \<and>
                  repr (heap s) False x t) (map snd attrs) fs"
          using attrs_getattr[OF d k c(2) r] .
        show "distinct (map fst [] @ map fst fs)"
          using k c by simp
        show "prefix (heap s) (heap s1)"
          by (simp add: s1_def)
      qed
      have dp: "depth (TNode a c fs) \<le> n \<longleftrightarrow> (\<forall>(k, t) \<in> set fs. depth t \<le> m)"
        using Suc by (simp add: foldr_max_le case_prod_unfold)
      show ?thesis
      proof (cases "depth (TNode a c fs) \<le> n")
        case False
        then show ?thesis
          unfolding same using loop dp vis by simp
      next
        case True
        with loop dp obtain vs' ts' s' where
          res: "transform_fields ?V (Ref a) (map fst fs) [] s1 =
                  Some (Inr (zip (map fst fs) vs', s'))" and
          p: "prefix (heap s1) (heap s')" and
          r2: "list_all2 (repr (heap s') False) vs' ts'" and
          sh: "map shape ts' = map (\<lambda>(k, t). shape t) fs" and
          ob: "\<forall>t' \<in> set ts'. objects t' \<subseteq> {length (heap s1)..<length (heap s')}" and
          vi: "visited s' = visited s1 @ map Ref (concat (map (\<lambda>(k, t). preorder t) fs))"
          by (auto simp: fields_post_def)
        have ps: "prefix (heap s) (heap s')"
          using p by (simp add: s1_def)
        have lts: "length ts' = length fs"
          using sh by (metis length_map)
        have lvs: "length vs' = length fs"
          using r2 lts by (simp add: list_all2_lengthD)
        let ?kw = "zip (map fst fs) vs'"
        have lk: "length (map fst fs) = length fs"
          by simp
        have kwk: "map fst ?kw = cfields c"
          using lvs lk k(2) by (metis map_fst_zip)
        have kws: "map snd ?kw = vs'"
          using lvs lk by (metis map_snd_zip)
        have tfk: "map fst (zip (map fst fs) ts') = cfields c"
          using lts lk k(2) by (metis map_fst_zip)
        have tfs: "map snd (zip (map fst fs) ts') = ts'"
          using lts lk by (metis map_snd_zip)
        define s2 where "s2 = s'\<lparr>heap := heap s' @ [Instance c ?kw]\<rparr>"
        have ty: "type_of (heap s') (Ref a) = Inr c"
          using deref_prefix[OF ps d] by simp
        have con: "construct c ?kw s' = Some (Inr (Ref (length (heap s')), s2))"
          using construct_ok[OF kwk c(2)] by (simp add: s2_def)
        have final: "visit NodeTransformer_generic_visit Map.empty n (Ref a) s =
            Some (Inr (Ref (length (heap s')), s2))"
          using vis res ty con by simp
        let ?t' = "TNode (length (heap s')) c (zip (map fst fs) ts')"
        have p2: "prefix (heap s') (heap s2)"
          by (simp add: s2_def)
        have "copied s item (TNode a c fs) s2 (Ref (length (heap s'))) ?t'"
          unfolding copied_def
        proof (intro conjI)
          show "prefix (heap s) (heap s2)"
            using ps p2 by (rule prefix_order.trans)
          have "list_all2 (repr (heap s2) False) vs' ts'"
            using r2
          proof (rule list.rel_mono_strong)
            fix x t assume "repr (heap s') False x t"
            then show "repr (heap s2) False x t" using p2 by (rule repr_prefix)
          qed
          then show "repr (heap s2) item (Ref (length (heap s'))) ?t'"
            using c kwk kws tfk tfs by (simp add: s2_def deref_def del: map_fst_zip map_snd_zip zip_map1)
          show "shape ?t' = shape (TNode a c fs)"
            using zip_fields_shape[OF sh] by simp
          show "objects ?t' \<subseteq> {length (heap s)..<length (heap s2)}"
          proof
            fix b assume "b \<in> objects ?t'"
            then consider "b = length (heap s')" | k t where "(k, t) \<in> set (zip (map fst fs) ts')" "b \<in> objects t"
              by auto
            then show "b \<in> {length (heap s)..<length (heap s2)}"
            proof cases
              case 1
              then show ?thesis
                using prefix_length_le[OF ps] by (simp add: s2_def)
            next
              case 2
              then have "t \<in> set ts'" by (meson set_zip_rightD)
              with ob 2 have "b \<in> {length (heap s1)..<length (heap s')}" by blast
              then show ?thesis
                by (simp add: s2_def s1_def)
            qed
          qed
          show "visited s2 = visited s @ map Ref (preorder (TNode a c fs))"
            using vi by (simp add: s2_def s1_def)
        qed
        then have "\<exists>v' s' t'. visit NodeTransformer_generic_visit Map.empty n (Ref a) s =
                Some (Inr (v', s')) \<and> copied s item (TNode a c fs) s' v' t'"
          using final by blast
        then show ?thesis
          unfolding same using True by simp
      qed
    qed
  qed
qed

section \<open>Plain traversal\<close>

lemma visit_fields_None:
  "visit_fields vis node ks s = Some (Inr (r, s')) \<Longrightarrow> r = Prim PyNone"
proof (induction ks arbitrary: s)
  case Nil
  then show ?case by simp
next
  case (Cons k ks)
  from Cons.prems show ?case
    unfolding visit_fields_step
    by (auto simp: and_then_def split: sum.splits option.splits dest: Cons.IH)
qed

lemma plain_visit_None:
  "visit generic_visit Map.empty n node s = Some (Inr (r, s')) \<Longrightarrow> r = Prim PyNone"
  by (cases n) (auto simp: generic_visit_def split: sum.splits dest: visit_fields_None)

lemma plain_visit_node:
  assumes "repr (heap s) False node (TNode a c fs)"
  shows "visit generic_visit Map.empty n node s =
    (if depth (TNode a c fs) \<le> n
     then Some (Inr (Prim PyNone, logged s (map Ref (preorder (TNode a c fs)))))
     else Some (Inl RecursionError))"
proof -
  let ?V = "visit generic_visit Map.empty n"
  from assms obtain attrs where v: "node = Ref a"
    and d: "deref (heap s) a = Some (Instance c attrs)" and c: "subclass_of_Node c"
    by (auto split: option.splits obj.splits)
  have vv: "visit_value ?V node s = and_then (?V node s) (\<lambda>r s'. Some (Inr ((), s')))"
    using v d c by (simp add: visit_value_def visit_item_def)
  have t: "visit_value ?V node s =
    (if depth (TNode a c fs) \<le> n
     then Some (Inr ((), logged s (map Ref (preorder (TNode a c fs)))))
     else Some (Inl RecursionError))"
    using visitor_tree[OF assms, of n] by simp
  show ?thesis
  proof (cases "?V node s")
    case None
    then show ?thesis using vv t by (simp split: if_splits)
  next
    case (Some y)
    show ?thesis
    proof (cases y)
      case (Inl e)
      then show ?thesis using Some vv t by (simp split: if_splits)
    next
      case (Inr p)
      obtain r s' where p: "p = (r, s')" by (cases p)
      have "r = Prim PyNone"
        using Some Inr p plain_visit_None by blast
      then show ?thesis using Some Inr p vv t by (simp split: if_splits)
    qed
  qed
qed

lemma set_preorder: "set (preorder t) = nodes t"
  by (induction t) (auto simp: case_prod_unfold)

lemma count_list_distinct: "distinct xs \<Longrightarrow> x \<in> set xs \<Longrightarrow> count_list xs x = 1"
  by (induction xs) auto

text \<open>
  Claim C1. A plain traversal (a NodeVisitor without handlers) of a tree in the store,
  with a recursion limit that the tree's depth does not exceed, enters \<^verbatim>\<open>visit\<close> on the
  nodes of the tree in pre-order: a node before its children, the children in the order
  of the declared fields and, inside a list, in list order. The tree shares no node
  (\<open>distinct\<close>), so every node of the tree is entered exactly once.
\<close>

theorem plain_traversal_preorder:
  assumes "repr (heap s) False node (TNode a c fs)"
    and "distinct (preorder (TNode a c fs))"
    and "depth (TNode a c fs) \<le> n"
  shows "NodeVisitor_visit Map.empty n node s =
           Some (Inr (Prim PyNone, logged s (map Ref (preorder (TNode a c fs))))) \<and>
         (\<forall>b \<in> nodes (TNode a c fs).
            count_list (map Ref (preorder (TNode a c fs))) (Ref b) = 1)"
proof
  show "NodeVisitor_visit Map.empty n node s =
           Some (Inr (Prim PyNone, logged s (map Ref (preorder (TNode a c fs)))))"
    using plain_visit_node[OF assms(1), of n] assms(3) by (simp add: NodeVisitor_visit_def)
  have "inj_on Ref (set (preorder (TNode a c fs)))"
    by (rule inj_onI) simp
  then have "distinct (map Ref (preorder (TNode a c fs)))"
    using assms(2) by (simp only: distinct_map)
  then show "\<forall>b \<in> nodes (TNode a c fs).
            count_list (map Ref (preorder (TNode a c fs))) (Ref b) = 1"
  proof (intro ballI)
    fix b assume d: "distinct (map Ref (preorder (TNode a c fs)))"
      and "b \<in> nodes (TNode a c fs)"
    then have "b \<in> set (preorder (TNode a c fs))"
      by (simp only: set_preorder)
    then have "Ref b \<in> Ref ` set (preorder (TNode a c fs))"
      by (rule imageI)
    then have "Ref b \<in> set (map Ref (preorder (TNode a c fs)))"
      by (simp only: set_map)
    with d show "count_list (map Ref (preorder (TNode a c fs))) (Ref b) = 1"
      by (rule count_list_distinct)
  qed
qed

lemma call_tree_repr: "repr call_store False (Ref 3) call_tree"
  by (simp add: call_store_def call_tree_def deref_def Call_def Identifier_def
      subclass_of_Node_def valid_def)

theorem plain_traversal_preorder_witness:
  "repr (heap \<lparr>heap = call_store, visited = []\<rparr>) False (Ref 3) call_tree \<and>
   distinct (preorder call_tree) \<and> depth call_tree \<le> 2 \<and>
   NodeVisitor_visit Map.empty 2 (Ref 3) \<lparr>heap = call_store, visited = []\<rparr> =
     Some (Inr (Prim PyNone, \<lparr>heap = call_store, visited = [Ref 3, Ref 0, Ref 1]\<rparr>)) \<and>
   nodes call_tree = {0, 1, 3} \<and>
   count_list [Ref 3, Ref 0, Ref 1] (Ref 0) = 1 \<and>
   count_list [Ref 3, Ref 0, Ref 1] (Ref 1) = 1 \<and>
   count_list [Ref 3, Ref 0, Ref 1] (Ref 3) = 1"
proof -
  have r: "repr (heap \<lparr>heap = call_store, visited = []\<rparr>) False (Ref 3)
      (TNode 3 Call
       [(''func'', TNode 0 Identifier [(''name'', TLeaf (Prim (PyStr ''f'')))]),
        (''args'', TItems 2 [TNode 1 Identifier [(''name'', TLeaf (Prim (PyStr ''x'')))],
                             TLeaf (Prim (PyInt 3))])])"
    using call_tree_repr by (simp add: call_tree_def)
  have d: "distinct (preorder (TNode 3 Call
       [(''func'', TNode 0 Identifier [(''name'', TLeaf (Prim (PyStr ''f'')))]),
        (''args'', TItems 2 [TNode 1 Identifier [(''name'', TLeaf (Prim (PyStr ''x'')))],
                             TLeaf (Prim (PyInt 3))])]))"
    by simp
  have n: "depth (TNode 3 Call
       [(''func'', TNode 0 Identifier [(''name'', TLeaf (Prim (PyStr ''f'')))]),
        (''args'', TItems 2 [TNode 1 Identifier [(''name'', TLeaf (Prim (PyStr ''x'')))],
                             TLeaf (Prim (PyInt 3))])]) \<le> 2"
    by simp
  show ?thesis
    using r d n plain_traversal_preorder[OF r d n]
    by (auto simp: call_tree_def logged_def)
qed

section \<open>Plain transformation\<close>

lemma plain_transform_node:
  assumes "repr (heap s) False node (TNode a c fs)"
  shows "if depth (TNode a c fs) \<le> n
     then \<exists>node' s' t'. visit NodeTransformer_generic_visit Map.empty n node s =
              Some (Inr (node', s')) \<and> copied s False (TNode a c fs) s' node' t'
     else visit NodeTransformer_generic_visit Map.empty n node s = Some (Inl RecursionError)"
proof -
  let ?V = "visit NodeTransformer_generic_visit Map.empty n"
  from assms obtain attrs where v: "node = Ref a"
    and d: "deref (heap s) a = Some (Instance c attrs)" and c: "subclass_of_Node c"
    by (auto split: option.splits obj.splits)
  have tv: "transform_value ?V node s = ?V node s"
    using v d c by (simp add: transform_value_def transform_item_def)
  have "if depth (TNode a c fs) \<le> n
     then \<exists>node' s' t'. transform_value ?V node s =
              Some (Inr (node', s')) \<and> copied s False (TNode a c fs) s' node' t'
     else transform_value ?V node s = Some (Inl RecursionError)"
    using transformer_tree[of n "TNode a c fs"] assms unfolding transforms_def
    by (metis (full_types))
  then show ?thesis
    unfolding tv .
qed

text \<open>
  Claim C8. For a tree in the store and no handlers, both engines return: the call
  succeeds as soon as the recursion limit reaches the depth of the tree, and fails with
  \<^verbatim>\<open>RecursionError\<close> below it, so the nesting of \<^verbatim>\<open>visit\<close> calls that a tree needs is its
  depth. A node without child nodes needs one level only, and the loop over an empty
  list returns at once, leaving the state as it is.
\<close>

theorem traversal_terminates:
  assumes "repr (heap s) False node (TNode a c fs)"
  shows "(depth (TNode a c fs) \<le> n \<longrightarrow>
            (\<exists>s'. NodeVisitor_visit Map.empty n node s = Some (Inr (Prim PyNone, s'))) \<and>
            (\<exists>node' s'. NodeTransformer_visit Map.empty n node s = Some (Inr (node', s')))) \<and>
         (n < depth (TNode a c fs) \<longrightarrow>
            NodeVisitor_visit Map.empty n node s = Some (Inl RecursionError) \<and>
            NodeTransformer_visit Map.empty n node s = Some (Inl RecursionError)) \<and>
         ((\<forall>(k, t) \<in> set fs. depth t = 0) \<longrightarrow>
            NodeVisitor_visit Map.empty 1 node s = Some (Inr (Prim PyNone, logged s [node])) \<and>
            (\<exists>node' s'. NodeTransformer_visit Map.empty 1 node s = Some (Inr (node', s')))) \<and>
         (\<forall>self_visit l new_val. deref (heap s) l = Some (PyList []) \<longrightarrow>
            visit_items self_visit (Ref l) 0 s = Some (Inr ((), s)) \<and>
            transform_items self_visit (Ref l) 0 new_val s = Some (Inr ((), s)))"
proof (intro conjI impI allI)
  assume "depth (TNode a c fs) \<le> n"
  then show "\<exists>s'. NodeVisitor_visit Map.empty n node s = Some (Inr (Prim PyNone, s'))"
    using plain_visit_node[OF assms, of n] by (simp add: NodeVisitor_visit_def)
  from \<open>depth (TNode a c fs) \<le> n\<close>
  show "\<exists>node' s'. NodeTransformer_visit Map.empty n node s = Some (Inr (node', s'))"
    using plain_transform_node[OF assms, of n] by (auto simp: NodeTransformer_visit_def)
next
  assume "n < depth (TNode a c fs)"
  then have "\<not> depth (TNode a c fs) \<le> n" by simp
  then show "NodeVisitor_visit Map.empty n node s = Some (Inl RecursionError)"
    and "NodeTransformer_visit Map.empty n node s = Some (Inl RecursionError)"
    using plain_visit_node[OF assms, of n] plain_transform_node[OF assms, of n]
    by (simp_all only: NodeVisitor_visit_def NodeTransformer_visit_def if_False)
next
  assume flat: "\<forall>(k, t) \<in> set fs. depth t = 0"
  have "foldr max (map (\<lambda>(k, t). depth t) fs) 0 \<le> 0"
    unfolding foldr_max_le using flat by auto
  then have d1: "depth (TNode a c fs) \<le> 1"
    by simp
  have pre: "concat (map (\<lambda>(k, t). preorder t) fs) = []"
  proof -
    have "preorder t = []" if "depth t = 0" for t
      using that
    proof (induction t)
      case (TItems l ts)
      from TItems.prems have "foldr max (map depth ts) 0 \<le> 0"
        by simp
      then have "\<forall>t \<in> set ts. depth t \<le> 0"
        by (simp only: foldr_max_le)
      with TItems.IH show ?case by simp
    qed simp_all
    with flat show ?thesis by auto
  qed
  from assms have node: "node = Ref a"
    by simp
  show "NodeVisitor_visit Map.empty 1 node s = Some (Inr (Prim PyNone, logged s [node]))"
    using plain_visit_node[OF assms, of 1] d1 pre node
    by (simp add: NodeVisitor_visit_def del: depth.simps)
  show "\<exists>node' s'. NodeTransformer_visit Map.empty 1 node s = Some (Inr (node', s'))"
    using plain_transform_node[OF assms, of 1] d1
    by (auto simp: NodeTransformer_visit_def simp del: depth.simps)
next
  fix self_visit l new_val
  assume "deref (heap s) l = Some (PyList [])"
  then show "visit_items self_visit (Ref l) 0 s = Some (Inr ((), s))"
    and "transform_items self_visit (Ref l) 0 new_val s = Some (Inr ((), s))"
    by (simp_all add: visit_items_step transform_items_step)
qed

theorem traversal_terminates_witness:
  "repr (heap \<lparr>heap = nullary_store, visited = []\<rparr>) False (Ref 2) nullary_tree \<and>
   depth nullary_tree = 2 \<and>
   (\<exists>s'. NodeVisitor_visit Map.empty 2 (Ref 2) \<lparr>heap = nullary_store, visited = []\<rparr> =
      Some (Inr (Prim PyNone, s'))) \<and>
   (\<exists>node' s'. NodeTransformer_visit Map.empty 2 (Ref 2) \<lparr>heap = nullary_store, visited = []\<rparr> =
      Some (Inr (node', s'))) \<and>
   NodeVisitor_visit Map.empty 1 (Ref 2) \<lparr>heap = nullary_store, visited = []\<rparr> =
     Some (Inl RecursionError) \<and>
   NodeTransformer_visit Map.empty 1 (Ref 2) \<lparr>heap = nullary_store, visited = []\<rparr> =
     Some (Inl RecursionError) \<and>
   repr (heap \<lparr>heap = nullary_store, visited = []\<rparr>) False (Ref 0)
     (TNode 0 Identifier [(''name'', TLeaf (Prim (PyStr ''f'')))]) \<and>
   NodeVisitor_visit Map.empty 1 (Ref 0) \<lparr>heap = nullary_store, visited = []\<rparr> =
     Some (Inr (Prim PyNone, \<lparr>heap = nullary_store, visited = [Ref 0]\<rparr>)) \<and>
   (\<exists>node' s'. NodeTransformer_visit Map.empty 1 (Ref 0) \<lparr>heap = nullary_store, visited = []\<rparr> =
      Some (Inr (node', s'))) \<and>
   deref (heap \<lparr>heap = nullary_store, visited = []\<rparr>) 1 = Some (PyList []) \<and>
   visit_items (visit generic_visit Map.empty 0) (Ref 1) 0 \<lparr>heap = nullary_store, visited = []\<rparr> =
     Some (Inr ((), \<lparr>heap = nullary_store, visited = []\<rparr>)) \<and>
   transform_items (visit NodeTransformer_generic_visit Map.empty 0) (Ref 1) 0 3
       \<lparr>heap = nullary_store, visited = []\<rparr> =
     Some (Inr ((), \<lparr>heap = nullary_store, visited = []\<rparr>))"
proof -
  let ?s = "\<lparr>heap = nullary_store, visited = []\<rparr>"
  let ?fs = "[(''func'', TNode 0 Identifier [(''name'', TLeaf (Prim (PyStr ''f'')))]),
        (''args'', TItems 1 [])]"
  have r: "repr (heap ?s) False (Ref 2) (TNode 2 Call ?fs)"
    by (simp add: nullary_store_def deref_def Call_def Identifier_def
        subclass_of_Node_def valid_def)
  have r0: "repr (heap ?s) False (Ref 0)
      (TNode 0 Identifier [(''name'', TLeaf (Prim (PyStr ''f'')))])"
    by (simp add: nullary_store_def deref_def Identifier_def subclass_of_Node_def valid_def)
  have d: "depth (TNode 2 Call ?fs) = 2"
    by simp
  have e: "deref (heap ?s) 1 = Some (PyList [])"
    by (simp add: nullary_store_def deref_def)
  have a2: "(\<exists>s'. NodeVisitor_visit Map.empty 2 (Ref 2) ?s = Some (Inr (Prim PyNone, s'))) \<and>
      (\<exists>node' s'. NodeTransformer_visit Map.empty 2 (Ref 2) ?s = Some (Inr (node', s')))"
    using traversal_terminates[OF r, of 2] by simp
  have a1: "NodeVisitor_visit Map.empty 1 (Ref 2) ?s = Some (Inl RecursionError) \<and>
      NodeTransformer_visit Map.empty 1 (Ref 2) ?s = Some (Inl RecursionError)"
    using traversal_terminates[OF r, of 1] by simp
  have a0: "NodeVisitor_visit Map.empty 1 (Ref 0) ?s = Some (Inr (Prim PyNone, logged ?s [Ref 0])) \<and>
      (\<exists>node' s'. NodeTransformer_visit Map.empty 1 (Ref 0) ?s = Some (Inr (node', s')))"
    using traversal_terminates[OF r0, of 1] by simp
  have ae: "visit_items (visit generic_visit Map.empty 0) (Ref 1) 0 ?s = Some (Inr ((), ?s)) \<and>
      transform_items (visit NodeTransformer_generic_visit Map.empty 0) (Ref 1) 0 3 ?s =
        Some (Inr ((), ?s))"
    using traversal_terminates[OF r, of 2] e by blast
  show ?thesis
    unfolding nullary_tree_def
    using r r0 d e a2 a1 a0 ae by (simp add: logged_def del: repr.simps depth.simps)
qed

text \<open>
  Claim C2. Without handlers, NodeTransformer.visit on a tree in the store returns the
  root of a tree of the same structure (the same classes, field names and values in the
  same order at every position) all of whose node and list objects are new: none of
  them is an object of the store the call started from.
\<close>

theorem identity_round_trip:
  assumes "repr (heap s) False node (TNode a c fs)" and "depth (TNode a c fs) \<le> n"
  shows "\<exists>node' s' t'.
           NodeTransformer_visit Map.empty n node s = Some (Inr (node', s')) \<and>
           repr (heap s') False node' t' \<and>
           shape t' = shape (TNode a c fs) \<and>
           objects t' \<subseteq> {length (heap s)..<length (heap s')}"
  using plain_transform_node[OF assms(1), of n] assms(2)
  unfolding NodeTransformer_visit_def copied_def by auto

theorem identity_round_trip_witness:
  "repr (heap \<lparr>heap = call_store, visited = []\<rparr>) False (Ref 3) call_tree \<and>
   depth call_tree \<le> 2 \<and>
   (\<exists>node' s' t'.
      NodeTransformer_visit Map.empty 2 (Ref 3) \<lparr>heap = call_store, visited = []\<rparr> =
        Some (Inr (node', s')) \<and>
      repr (heap s') False node' t' \<and>
      shape t' = shape call_tree \<and>
      objects t' \<subseteq> {4..<length (heap s')})"
proof -
  have r: "repr (heap \<lparr>heap = call_store, visited = []\<rparr>) False (Ref 3)
      (TNode 3 Call
       [(''func'', TNode 0 Identifier [(''name'', TLeaf (Prim (PyStr ''f'')))]),
        (''args'', TItems 2 [TNode 1 Identifier [(''name'', TLeaf (Prim (PyStr ''x'')))],
                             TLeaf (Prim (PyInt 3))])])"
    using call_tree_repr by (simp add: call_tree_def)
  have n: "depth (TNode 3 Call
       [(''func'', TNode 0 Identifier [(''name'', TLeaf (Prim (PyStr ''f'')))]),
        (''args'', TItems 2 [TNode 1 Identifier [(''name'', TLeaf (Prim (PyStr ''x'')))],
                             TLeaf (Prim (PyInt 3))])]) \<le> 2"
    by simp
  have l: "length (heap \<lparr>heap = call_store, visited = []\<rparr>) = 4"
    by (simp add: call_store_def)
  show ?thesis
    using r n identity_round_trip[OF r n]
    unfolding l call_tree_def by simp
qed






section \<open>What the engines do to the store, whatever the handlers\<close>

lemma and_then_Inr:
  "and_then m k = Some (Inr y) \<longleftrightarrow> (\<exists>x s1. m = Some (Inr (x, s1)) \<and> k x s1 = Some (Inr y))"
  by (auto simp: and_then_def split: option.splits sum.splits)

lemma visit_item_keeps:
  "keeps_heap vis \<Longrightarrow> visit_item vis x s = Some (Inr (u, s')) \<Longrightarrow> heap s' = heap s"
  by (auto simp: visit_item_def keeps_heap_def and_then_Inr split: if_splits)

lemma visit_items_keeps:
  assumes "keeps_heap vis"
  shows "visit_items vis value i s = Some (Inr (u, s')) \<Longrightarrow> heap s' = heap s"
proof (cases "list_items (heap s) value")
  case (Inl e)
  assume "visit_items vis value i s = Some (Inr (u, s'))"
  with Inl show ?thesis by (simp add: visit_items_step[of vis "value" i s])
next
  case (Inr xs)
  assume "visit_items vis value i s = Some (Inr (u, s'))"
  then show ?thesis
    using Inr
  proof (induction "length xs - i" arbitrary: i s)
    case 0
    then show ?case by (simp add: visit_items_step[of vis "value" i s])
  next
    case (Suc d)
    then have i: "i < length xs" by simp
    from Suc.prems obtain s1 where
      a: "visit_item vis (xs ! i) s = Some (Inr ((), s1))" and
      b: "visit_items vis value (Suc i) s1 = Some (Inr (u, s'))"
      using i by (auto simp: visit_items_step[of vis "value" i s] and_then_Inr)
    have h1: "heap s1 = heap s"
      using visit_item_keeps[OF assms a] .
    have "heap s' = heap s1"
      using Suc.hyps(1)[of "Suc i" s1] Suc.hyps(2) b Suc.prems(2) h1 by simp
    then show ?case using h1 by simp
  qed
qed

lemma visit_value_keeps:
  "keeps_heap vis \<Longrightarrow> visit_value vis x s = Some (Inr (u, s')) \<Longrightarrow> heap s' = heap s"
  by (auto simp: visit_value_def split: if_splits dest: visit_items_keeps visit_item_keeps)

lemma visit_fields_keeps:
  assumes "keeps_heap vis"
  shows "visit_fields vis node ks s = Some (Inr (r, s')) \<Longrightarrow> heap s' = heap s"
proof (induction ks arbitrary: s)
  case Nil
  then show ?case by simp
next
  case (Cons k ks)
  from Cons.prems obtain x u s1 where
    a: "visit_value vis x s = Some (Inr (u, s1))" and
    b: "visit_fields vis node ks s1 = Some (Inr (r, s'))"
    unfolding visit_fields_step by (auto simp: and_then_Inr split: sum.splits)
  show ?case
    using visit_value_keeps[OF assms a] Cons.IH[OF b] by simp
qed

lemma generic_visit_keeps: "keeps_heap vis \<Longrightarrow> keeps_heap (generic_visit vis)"
  unfolding keeps_heap_def[of "generic_visit vis"]
  by (auto simp: generic_visit_def split: sum.splits dest: visit_fields_keeps)

lemma visit_keeps:
  assumes "handlers_keep hs"
  shows "keeps_heap (visit generic_visit hs n)"
proof (induction n)
  case 0
  show ?case by (simp add: keeps_heap_def)
next
  case (Suc n)
  let ?sv = "visit generic_visit hs n"
  have gv: "keeps_heap (generic_visit ?sv)"
    using Suc by (rule generic_visit_keeps)
  show ?case
    unfolding keeps_heap_def
  proof (intro allI impI)
    fix node r and s s' :: state
    assume run: "visit generic_visit hs (Suc n) node s = Some (Inr (r, s'))"
    then obtain name where nm: "class_name (heap s) node = Inr name"
      by (auto split: sum.splits)
    let ?s1 = "s\<lparr>visited := visited s @ [node]\<rparr>"
    show "heap s' = heap s"
    proof (cases "hs (''visit_'' @ name)")
      case None
      then have "generic_visit ?sv node ?s1 = Some (Inr (r, s'))"
        using run nm by (simp add: Let_def)
      then have "heap s' = heap ?s1"
        using gv unfolding keeps_heap_def by blast
      then show ?thesis by simp
    next
      case (Some h)
      then have "h ?sv (generic_visit ?sv) node ?s1 = Some (Inr (r, s'))"
        using run nm by (simp add: Let_def)
      moreover have "keeps_heap (h ?sv (generic_visit ?sv))"
        using assms Some Suc gv unfolding handlers_keep_def by blast
      ultimately have "heap s' = heap ?s1"
        unfolding keeps_heap_def by blast
      then show ?thesis by simp
    qed
  qed
qed

lemma case_sum_Inr:
  "(case m of Inl e \<Rightarrow> Some (Inl e) | Inr x \<Rightarrow> k x) = Some (Inr y) \<longleftrightarrow>
     (\<exists>x. m = Inr x \<and> k x = Some (Inr y))"
  by (cases m) auto

lemma transform_item_extends:
  "extends_heap vis \<Longrightarrow> transform_item vis x s = Some (Inr (r, s')) \<Longrightarrow>
   prefix (heap s) (heap s')"
  by (auto simp: transform_item_def extends_heap_def split: if_splits)

lemma list_append_Inr:
  "list_append l x s = Inr s' \<longleftrightarrow>
     (\<exists>xs. deref (heap s) l = Some (PyList xs) \<and> s' = s\<lparr>heap := (heap s)[l := PyList (xs @ [x])]\<rparr>)"
  by (auto simp: list_append_def split: option.splits obj.splits)

lemma transform_items_extends:
  assumes ext: "extends_heap vis"
    and d: "deref h0 l = Some (PyList xs)"
    and nv: "length h0 \<le> nv"
  shows "prefix h0 (heap s) \<Longrightarrow> transform_items vis (Ref l) i nv s = Some (Inr (u, s')) \<Longrightarrow>
    prefix h0 (heap s')"
proof (induction "length xs - i" arbitrary: i s)
  case 0
  have "list_items (heap s) (Ref l) = Inr xs"
    using deref_prefix[OF 0(2) d] by simp
  with 0 show ?case
    by (simp add: transform_items_step[of vis "Ref l" i nv s])
next
  case (Suc k)
  then have i: "i < length xs" by simp
  have items: "list_items (heap s) (Ref l) = Inr xs"
    using deref_prefix[OF Suc.prems(1) d] by simp
  from Suc.prems(2) obtain r s1 s2 where
    a: "transform_item vis (xs ! i) s = Some (Inr (r, s1))" and
    b: "list_append nv r s1 = Inr s2" and
    c: "transform_items vis (Ref l) (Suc i) nv s2 = Some (Inr (u, s'))"
    using i items
    by (auto simp: transform_items_step[of vis "Ref l" i nv s] and_then_Inr case_sum_Inr)
  have "prefix h0 (heap s1)"
    using Suc.prems(1) transform_item_extends[OF ext a] by (rule prefix_order.trans)
  then have p2: "prefix h0 (heap s2)"
    using b nv by (auto simp: list_append_Inr prefix_update)
  have kk: "k = length xs - Suc i" using Suc.hyps(2) by simp
  show ?case
    by (rule Suc.hyps(1)[OF kk p2 c])
qed

lemma transform_value_extends:
  assumes ext: "extends_heap vis"
  shows "transform_value vis x s = Some (Inr (r, s')) \<Longrightarrow> prefix (heap s) (heap s')"
proof (cases "isinstance_list (heap s) x")
  case False
  assume "transform_value vis x s = Some (Inr (r, s'))"
  with False show ?thesis
    by (auto simp: transform_value_def dest: transform_item_extends[OF ext])
next
  case True
  assume run: "transform_value vis x s = Some (Inr (r, s'))"
  from True obtain l xs where x: "x = Ref l" and d: "deref (heap s) l = Some (PyList xs)"
    by (cases x) (auto split: option.splits obj.splits)
  let ?s1 = "s\<lparr>heap := heap s @ [PyList []]\<rparr>"
  from run True x obtain u where
    "transform_items vis (Ref l) 0 (length (heap s)) ?s1 = Some (Inr (u, s'))"
    by (auto simp: transform_value_def alloc_def and_then_Inr)
  moreover have "prefix (heap s) (heap ?s1)" by simp
  ultimately show ?thesis
    using transform_items_extends[OF ext d order_refl] by blast
qed

lemma transform_fields_extends:
  assumes ext: "extends_heap vis"
  shows "transform_fields vis node ks kw s = Some (Inr (kw', s')) \<Longrightarrow> prefix (heap s) (heap s')"
proof (induction ks arbitrary: kw s)
  case Nil
  then show ?case by simp
next
  case (Cons k ks)
  from Cons.prems obtain x x' s1 where
    a: "transform_value vis x s = Some (Inr (x', s1))" and
    b: "transform_fields vis node ks (AList.update k x' kw) s1 = Some (Inr (kw', s'))"
    unfolding transform_fields_step by (auto simp: and_then_Inr split: sum.splits)
  show ?case
    using transform_value_extends[OF ext a] Cons.IH[OF b] by (rule prefix_order.trans)
qed

lemma bind_args_names: "bind_args cn ks kw = Inr attrs \<Longrightarrow> map fst attrs = ks"
  by (induction ks arbitrary: attrs) (auto split: option.splits sum.splits)

lemma construct_Inr:
  assumes "construct c kw s = Some (Inr (r, s'))"
  obtains attrs where "r = Ref (length (heap s))" "s' = s\<lparr>heap := heap s @ [Instance c attrs]\<rparr>"
    "map fst attrs = cfields c" "bind_args (cname c) (cfields c) kw = Inr attrs"
  using assms
  by (auto simp: construct_def alloc_def split: list.splits sum.splits dest: bind_args_names)

lemma transformer_generic_visit_result:
  assumes ext: "extends_heap vis"
    and run: "NodeTransformer_generic_visit vis node s = Some (Inr (r, s'))"
  obtains a c attrs kw s1 attrs' where
    "node = Ref a" "deref (heap s) a = Some (Instance c attrs)"
    "transform_fields vis node (cfields c) [] s = Some (Inr (kw, s1))"
    "prefix (heap s) (heap s1)"
    "r = Ref (length (heap s1))" "s' = s1\<lparr>heap := heap s1 @ [Instance c attrs']\<rparr>"
    "map fst attrs' = cfields c" "bind_args (cname c) (cfields c) kw = Inr attrs'"
proof -
  from run obtain ks where ks: "iter_dataclass_fields (heap s) node = Inr ks"
    by (auto simp: NodeTransformer_generic_visit_def split: sum.splits)
  then obtain a c attrs where node: "node = Ref a"
    and d: "deref (heap s) a = Some (Instance c attrs)" and kc: "ks = cfields c"
    by (cases node) (auto split: option.splits obj.splits)
  from run ks obtain kw s1 c1 where
    tf: "transform_fields vis node ks [] s = Some (Inr (kw, s1))" and
    ty: "type_of (heap s1) node = Inr c1" and
    con: "construct c1 kw s1 = Some (Inr (r, s'))"
    by (auto simp: NodeTransformer_generic_visit_def and_then_Inr case_sum_Inr)
  have p: "prefix (heap s) (heap s1)"
    using transform_fields_extends[OF ext tf] .
  have "c1 = c"
    using ty node deref_prefix[OF p d] by simp
  with con obtain attrs' where "r = Ref (length (heap s1))"
    "s' = s1\<lparr>heap := heap s1 @ [Instance c attrs']\<rparr>"
    "map fst attrs' = cfields c" "bind_args (cname c) (cfields c) kw = Inr attrs'"
    by (auto elim: construct_Inr)
  with node d tf kc p show ?thesis
    by (intro that[of a c attrs kw s1 attrs']) simp_all
qed

lemma transformer_generic_visit_extends:
  "extends_heap vis \<Longrightarrow> extends_heap (NodeTransformer_generic_visit vis)"
  unfolding extends_heap_def[of "NodeTransformer_generic_visit vis"]
proof (intro allI impI)
  fix node r and s s' :: state
  assume ext: "extends_heap vis"
    and run: "NodeTransformer_generic_visit vis node s = Some (Inr (r, s'))"
  from ext run obtain s1 attrs' c where "prefix (heap s) (heap s1)"
    "s' = s1\<lparr>heap := heap s1 @ [Instance c attrs']\<rparr>"
    by (rule transformer_generic_visit_result)
  then show "prefix (heap s) (heap s')"
    by (auto simp: prefix_def)
qed

lemma visit_extends:
  assumes "handlers_extend hs"
  shows "extends_heap (visit NodeTransformer_generic_visit hs n)"
proof (induction n)
  case 0
  show ?case by (simp add: extends_heap_def)
next
  case (Suc n)
  let ?sv = "visit NodeTransformer_generic_visit hs n"
  have gv: "extends_heap (NodeTransformer_generic_visit ?sv)"
    using Suc by (rule transformer_generic_visit_extends)
  show ?case
    unfolding extends_heap_def
  proof (intro allI impI)
    fix node r and s s' :: state
    assume run: "visit NodeTransformer_generic_visit hs (Suc n) node s = Some (Inr (r, s'))"
    then obtain name where nm: "class_name (heap s) node = Inr name"
      by (auto split: sum.splits)
    let ?s1 = "s\<lparr>visited := visited s @ [node]\<rparr>"
    show "prefix (heap s) (heap s')"
    proof (cases "hs (''visit_'' @ name)")
      case None
      then have "NodeTransformer_generic_visit ?sv node ?s1 = Some (Inr (r, s'))"
        using run nm by (simp add: Let_def)
      then have "prefix (heap ?s1) (heap s')"
        using gv unfolding extends_heap_def by blast
      then show ?thesis by simp
    next
      case (Some h)
      then have "h ?sv (NodeTransformer_generic_visit ?sv) node ?s1 = Some (Inr (r, s'))"
        using run nm by (simp add: Let_def)
      moreover have "extends_heap (h ?sv (NodeTransformer_generic_visit ?sv))"
        using assms Some Suc gv unfolding handlers_extend_def by blast
      ultimately have "prefix (heap ?s1) (heap s')"
        unfolding extends_heap_def by blast
      then show ?thesis by simp
    qed
  qed
qed

lemma transform_fields_names:
  "transform_fields vis node ks kw s = Some (Inr (kw', s')) \<Longrightarrow>
   distinct (map fst kw @ ks) \<Longrightarrow> map fst kw' = map fst kw @ ks"
proof (induction ks arbitrary: kw s)
  case Nil
  then show ?case by simp
next
  case (Cons k ks)
  from Cons.prems(1) obtain x x' s1 where
    b: "transform_fields vis node ks (AList.update k x' kw) s1 = Some (Inr (kw', s'))"
    unfolding transform_fields_step by (auto simp: and_then_Inr split: sum.splits)
  have fresh: "k \<notin> fst ` set kw"
    using Cons.prems(2) by auto
  have "map fst kw' = map fst (kw @ [(k, x')]) @ ks"
    using Cons.IH[of "kw @ [(k, x')]" s1] b Cons.prems(2)
    by (simp add: update_fresh_key[OF fresh])
  then show ?case by simp
qed

text \<open>
  Claim C3. NodeTransformer.generic_visit, when it returns, returns a new instance of
  the class of the node it was given, with exactly the declared field names of that
  class in declared order; where those names are distinct, they are also exactly the
  keyword arguments passed to the constructor, in that order. (The visits of the
  children are taken not to modify existing objects, as the spec's immutable nodes
  demand; a handler may return an object of any class for a child.)
\<close>

theorem generic_visit_same_kind:
  assumes "extends_heap self_visit"
    and "type_of (heap s) node = Inr c"
    and "NodeTransformer_generic_visit self_visit node s = Some (Inr (r, s'))"
  shows "type_of (heap s') r = Inr c \<and>
         iter_dataclass_fields (heap s') r = Inr (cfields c) \<and>
         (\<exists>a' attrs'. r = Ref a' \<and> length (heap s) \<le> a' \<and>
            deref (heap s') a' = Some (Instance c attrs') \<and> map fst attrs' = cfields c) \<and>
         (\<exists>new_kwargs s1.
            transform_fields self_visit node (cfields c) [] s = Some (Inr (new_kwargs, s1)) \<and>
            construct c new_kwargs s1 = Some (Inr (r, s')) \<and>
            (distinct (cfields c) \<longrightarrow> map fst new_kwargs = cfields c))"
proof -
  from assms(1,3) obtain a c0 attrs kw s1 attrs' where
    node: "node = Ref a" and d: "deref (heap s) a = Some (Instance c0 attrs)" and
    tf: "transform_fields self_visit node (cfields c0) [] s = Some (Inr (kw, s1))" and
    p: "prefix (heap s) (heap s1)" and
    r: "r = Ref (length (heap s1))" and s': "s' = s1\<lparr>heap := heap s1 @ [Instance c0 attrs']\<rparr>" and
    names: "map fst attrs' = cfields c0" and ba: "bind_args (cname c0) (cfields c0) kw = Inr attrs'"
    by (rule transformer_generic_visit_result)
  have c0: "c0 = c"
    using assms(2) node d by simp
  have dr: "deref (heap s') (length (heap s1)) = Some (Instance c attrs')"
    using s' c0 by (simp add: deref_def)
  have con: "construct c kw s1 = Some (Inr (r, s'))"
  proof -
    from assms(3) node d c0 tf have "\<exists>c1. type_of (heap s1) node = Inr c1 \<and>
        construct c1 kw s1 = Some (Inr (r, s'))"
      by (auto simp: NodeTransformer_generic_visit_def and_then_Inr case_sum_Inr)
    moreover have "type_of (heap s1) node = Inr c"
      using node deref_prefix[OF p d] c0 by simp
    ultimately show ?thesis by auto
  qed
  have kwn: "map fst kw = cfields c" if "distinct (cfields c)"
    using transform_fields_names[OF tf] that c0 by simp
  show ?thesis
    using r dr names c0 tf con kwn prefix_length_le[OF p] by auto
qed

lemma outcome_Inr [simp]: "outcome vis (Some (Inr (y, s))) P = P y s"
  by (simp add: outcome_def)

lemma outcome_mono:
  "outcome vis res P \<Longrightarrow> (\<And>y s'. P y s' \<Longrightarrow> Q y s') \<Longrightarrow> outcome vis res Q"
  by (auto simp: outcome_def split: option.splits sum.splits)

lemma outcome_and_then:
  assumes "outcome vis m P"
    and "\<And>x s1. m = Some (Inr (x, s1)) \<Longrightarrow> P x s1 \<Longrightarrow> outcome vis (k x s1) Q"
  shows "outcome vis (and_then m k) Q"
  using assms by (auto simp: outcome_def and_then_def split: option.splits sum.splits)

lemma outcome_vis: "outcome vis (vis x s) (\<lambda>r s'. vis x s = Some (Inr (r, s')))"
  by (auto simp: outcome_def split: option.splits sum.splits)

lemma outcome_transform_item:
  assumes ext: "extends_heap vis" and p: "prefix h0 (heap s)" and v: "valid h0 x"
  shows "outcome vis (transform_item vis x s)
           (\<lambda>r s1. prefix (heap s) (heap s1) \<and> item_result vis h0 x r)"
proof (cases "isinstance_Node h0 x")
  case False
  then have "\<not> isinstance_Node (heap s) x"
    using leaf_prefix(2)[OF p v] by simp
  with False show ?thesis
    by (simp add: transform_item_def item_result_def)
next
  case True
  then have "isinstance_Node (heap s) x"
    using leaf_prefix(2)[OF p v] by simp
  then have ti: "transform_item vis x s = vis x s"
    by (simp add: transform_item_def)
  show ?thesis
    unfolding ti
  proof (rule outcome_mono[OF outcome_vis])
    fix r and s1 :: state assume run: "vis x s = Some (Inr (r, s1))"
    then have "prefix (heap s) (heap s1)"
      using ext unfolding extends_heap_def by blast
    moreover have "item_result vis h0 x r"
      using True run p unfolding item_result_def by auto
    ultimately show "prefix (heap s) (heap s1) \<and> item_result vis h0 x r" ..
  qed
qed

lemma outcome_transform_items:
  assumes ext: "extends_heap vis"
    and d: "deref h0 l = Some (PyList xs)"
    and v: "\<forall>x \<in> set xs. valid h0 x"
    and nv: "length h0 \<le> nv"
  shows "i \<le> length xs \<Longrightarrow> prefix h0 (heap s) \<Longrightarrow> deref (heap s) nv = Some (PyList rs) \<Longrightarrow>
    outcome vis (transform_items vis (Ref l) i nv s)
      (\<lambda>u s'. prefix h0 (heap s') \<and>
         (\<exists>rs'. deref (heap s') nv = Some (PyList (rs @ rs')) \<and>
                 list_all2 (item_result vis h0) (drop i xs) rs'))"
proof (induction "length xs - i" arbitrary: i s rs)
  case 0
  have "list_items (heap s) (Ref l) = Inr xs"
    using deref_prefix[OF 0(3) d] by simp
  with 0 show ?case
    by (simp add: transform_items_step[of vis "Ref l" i nv s])
next
  case (Suc k)
  then have i: "i < length xs" by simp
  have items: "list_items (heap s) (Ref l) = Inr xs"
    using deref_prefix[OF Suc.prems(2) d] by simp
  have vx: "valid h0 (xs ! i)"
    using v i by simp
  have dr: "drop i xs = xs ! i # drop (Suc i) xs"
    using i by (simp add: Cons_nth_drop_Suc)
  let ?k = "\<lambda>r s1. case list_append nv r s1 of
                       Inl e \<Rightarrow> Some (Inl e)
                     | Inr s2 \<Rightarrow> transform_items vis (Ref l) (Suc i) nv s2"
  have step: "transform_items vis (Ref l) i nv s = and_then (transform_item vis (xs ! i) s) ?k"
    using items i by (simp add: transform_items_step[of vis "Ref l" i nv s])
  show ?case
    unfolding step
  proof (rule outcome_and_then[OF outcome_transform_item[OF ext Suc.prems(2) vx]])
    fix r and s1 :: state
    assume post: "prefix (heap s) (heap s1) \<and> item_result vis h0 (xs ! i) r"
    then have p1: "prefix (heap s) (heap s1)" and ir: "item_result vis h0 (xs ! i) r"
      by simp_all
    have acc1: "deref (heap s1) nv = Some (PyList rs)"
      using deref_prefix[OF p1 Suc.prems(3)] .
    define s2 where "s2 = s1\<lparr>heap := (heap s1)[nv := PyList (rs @ [r])]\<rparr>"
    have app: "list_append nv r s1 = Inr s2"
      using acc1 by (simp add: list_append_def s2_def)
    have "prefix h0 (heap s1)"
      using Suc.prems(2) p1 by (rule prefix_order.trans)
    then have p2: "prefix h0 (heap s2)"
      using nv by (simp add: s2_def prefix_update)
    have acc2: "deref (heap s2) nv = Some (PyList (rs @ [r]))"
      using deref_Some_less[OF acc1] by (simp add: s2_def deref_def)
    have kk: "k = length xs - Suc i" using Suc.hyps(2) by simp
    have le: "Suc i \<le> length xs" using i by simp
    have rest: "outcome vis (transform_items vis (Ref l) (Suc i) nv s2)
      (\<lambda>u s'. prefix h0 (heap s') \<and>
         (\<exists>rs'. deref (heap s') nv = Some (PyList ((rs @ [r]) @ rs')) \<and>
                 list_all2 (item_result vis h0) (drop (Suc i) xs) rs'))"
      by (rule Suc.hyps(1)[OF kk le p2 acc2])
    have "outcome vis (transform_items vis (Ref l) (Suc i) nv s2)
      (\<lambda>u s'. prefix h0 (heap s') \<and>
         (\<exists>rs'. deref (heap s') nv = Some (PyList (rs @ rs')) \<and>
                 list_all2 (item_result vis h0) (drop i xs) rs'))"
    proof (rule outcome_mono[OF rest])
      fix u :: unit and s' :: state
      assume "prefix h0 (heap s') \<and>
         (\<exists>rs'. deref (heap s') nv = Some (PyList ((rs @ [r]) @ rs')) \<and>
                 list_all2 (item_result vis h0) (drop (Suc i) xs) rs')"
      then obtain rs' where a: "prefix h0 (heap s')"
        "deref (heap s') nv = Some (PyList ((rs @ [r]) @ rs'))"
        "list_all2 (item_result vis h0) (drop (Suc i) xs) rs'"
        by blast
      have "deref (heap s') nv = Some (PyList (rs @ (r # rs')))"
        using a(2) by simp
      moreover have "list_all2 (item_result vis h0) (drop i xs) (r # rs')"
        using a(3) ir dr by simp
      ultimately show "prefix h0 (heap s') \<and>
         (\<exists>rs'. deref (heap s') nv = Some (PyList (rs @ rs')) \<and>
                 list_all2 (item_result vis h0) (drop i xs) rs')"
        using a(1) by blast
    qed
    then show "outcome vis (?k r s1)
      (\<lambda>u s'. prefix h0 (heap s') \<and>
         (\<exists>rs'. deref (heap s') nv = Some (PyList (rs @ rs')) \<and>
                 list_all2 (item_result vis h0) (drop i xs) rs'))"
      using app by simp
  qed
qed

lemma outcome_conj:
  assumes "outcome vis res P" and "\<And>y s'. res = Some (Inr (y, s')) \<Longrightarrow> Q y s'"
  shows "outcome vis res (\<lambda>y s'. P y s' \<and> Q y s')"
  using assms by (auto simp: outcome_def split: option.splits sum.splits)

lemma value_result_prefix:
  "value_result vis h0 x x' h' \<Longrightarrow> prefix h' h'' \<Longrightarrow> value_result vis h0 x x' h''"
  unfolding value_result_def by (auto split: if_splits dest: deref_prefix)

lemma outcome_transform_value:
  assumes ext: "extends_heap vis" and p: "prefix h0 (heap s)" and vv: "valid_value h0 x"
  shows "outcome vis (transform_value vis x s)
           (\<lambda>x' s'. prefix (heap s) (heap s') \<and> value_result vis h0 x x' (heap s'))"
proof (cases "isinstance_list h0 x")
  case False
  from vv have v: "valid h0 x" by (simp add: valid_value_def)
  have "\<not> isinstance_list (heap s) x"
    using False leaf_prefix(3)[OF p v] by simp
  then have tv: "transform_value vis x s = transform_item vis x s"
    by (simp add: transform_value_def)
  show ?thesis
    unfolding tv using outcome_transform_item[OF ext p v] False
    by (simp add: value_result_def)
next
  case True
  then obtain l xs where x: "x = Ref l" and d: "deref h0 l = Some (PyList xs)"
    by (cases x) (auto split: option.splits obj.splits)
  have vi: "\<forall>y \<in> set xs. valid h0 y"
    using vv x d by (simp add: valid_value_def)
  have ds: "deref (heap s) l = Some (PyList xs)"
    using deref_prefix[OF p d] .
  let ?nv = "length (heap s)"
  let ?s1 = "s\<lparr>heap := heap s @ [PyList []]\<rparr>"
  let ?loop = "transform_items vis (Ref l) 0 ?nv ?s1"
  have tv: "transform_value vis x s = and_then ?loop (\<lambda>u s2. Some (Inr (Ref ?nv, s2)))"
    using x ds by (simp add: transform_value_def alloc_def)
  have nv: "length h0 \<le> ?nv"
    using p by (rule prefix_length_le)
  have p1: "prefix h0 (heap ?s1)"
    using p by (simp add: prefix_def) (metis append.assoc)
  have acc: "deref (heap ?s1) ?nv = Some (PyList [])"
    by (simp add: deref_def)
  have loop: "outcome vis ?loop
      (\<lambda>u s'. prefix h0 (heap s') \<and>
         (\<exists>rs'. deref (heap s') ?nv = Some (PyList ([] @ rs')) \<and>
                 list_all2 (item_result vis h0) (drop 0 xs) rs'))"
    by (rule outcome_transform_items[OF ext d vi nv _ p1 acc]) simp
  have frame: "prefix (heap s) (heap s')" if "?loop = Some (Inr (u, s'))" for u s'
    by (rule transform_items_extends[OF ext ds order_refl _ that]) simp
  show ?thesis
    unfolding tv
  proof (rule outcome_and_then[OF outcome_conj[OF loop frame]])
    fix u :: unit and s1 :: state
    assume "(prefix h0 (heap s1) \<and>
         (\<exists>rs'. deref (heap s1) ?nv = Some (PyList ([] @ rs')) \<and>
                 list_all2 (item_result vis h0) (drop 0 xs) rs')) \<and> prefix (heap s) (heap s1)"
    then show "outcome vis (Some (Inr (Ref ?nv, s1)))
      (\<lambda>x' s'. prefix (heap s) (heap s') \<and> value_result vis h0 x x' (heap s'))"
      using True x d nv by (auto simp: value_result_def)
  qed
qed

lemma outcome_transform_fields:
  assumes ext: "extends_heap vis"
    and d: "deref h0 a = Some (Instance c attrs)"
  shows "\<forall>k \<in> set ks. \<exists>x. map_of attrs k = Some x \<and> valid_value h0 x \<Longrightarrow>
    distinct (map fst kw @ ks) \<Longrightarrow> prefix h0 (heap s) \<Longrightarrow>
    outcome vis (transform_fields vis (Ref a) ks kw s)
      (\<lambda>kw' s'. prefix (heap s) (heap s') \<and>
         (\<exists>vs. kw' = kw @ zip ks vs \<and>
            list_all2 (\<lambda>k v. \<exists>x. map_of attrs k = Some x \<and> value_result vis h0 x v (heap s'))
              ks vs))"
proof (induction ks arbitrary: kw s)
  case Nil
  then show ?case by simp
next
  case (Cons k ks)
  from Cons.prems(1) obtain x where x: "map_of attrs k = Some x" "valid_value h0 x"
    by auto
  have g: "getattr (heap s) (Ref a) k = Inr x"
    using deref_prefix[OF Cons.prems(3) d] x(1) by simp
  have fresh: "k \<notin> fst ` set kw"
    using Cons.prems(2) by auto
  have step: "transform_fields vis (Ref a) (k # ks) kw s =
      and_then (transform_value vis x s)
        (\<lambda>new_val. transform_fields vis (Ref a) ks (kw @ [(k, new_val)]))"
    using g by (simp add: transform_fields_step update_fresh_key[OF fresh]
        del: transform_fields.simps)
  show ?case
    unfolding step
  proof (rule outcome_and_then[OF outcome_transform_value[OF ext Cons.prems(3) x(2)]])
    fix x' and s1 :: state
    assume "prefix (heap s) (heap s1) \<and> value_result vis h0 x x' (heap s1)"
    then have p1: "prefix (heap s) (heap s1)" and vr: "value_result vis h0 x x' (heap s1)"
      by simp_all
    have p01: "prefix h0 (heap s1)"
      using Cons.prems(3) p1 by (rule prefix_order.trans)
    have d1: "distinct (map fst (kw @ [(k, x')]) @ ks)"
      using Cons.prems(2) by auto
    have w1: "\<forall>k \<in> set ks. \<exists>x. map_of attrs k = Some x \<and> valid_value h0 x"
      using Cons.prems(1) by simp
    show "outcome vis (transform_fields vis (Ref a) ks (kw @ [(k, x')]) s1)
      (\<lambda>kw' s'. prefix (heap s) (heap s') \<and>
         (\<exists>vs. kw' = kw @ zip (k # ks) vs \<and>
            list_all2 (\<lambda>k v. \<exists>x. map_of attrs k = Some x \<and> value_result vis h0 x v (heap s'))
              (k # ks) vs))"
    proof (rule outcome_mono[OF Cons.IH[OF w1 d1 p01]])
      fix kw' and s' :: state
      assume "prefix (heap s1) (heap s') \<and>
         (\<exists>vs. kw' = (kw @ [(k, x')]) @ zip ks vs \<and>
            list_all2 (\<lambda>k v. \<exists>x. map_of attrs k = Some x \<and> value_result vis h0 x v (heap s'))
              ks vs)"
      then obtain vs where p2: "prefix (heap s1) (heap s')"
        and kw': "kw' = (kw @ [(k, x')]) @ zip ks vs"
        and all: "list_all2 (\<lambda>k v. \<exists>x. map_of attrs k = Some x \<and>
                    value_result vis h0 x v (heap s')) ks vs"
        by blast
      have "value_result vis h0 x x' (heap s')"
        using vr p2 by (rule value_result_prefix)
      then have "list_all2 (\<lambda>k v. \<exists>x. map_of attrs k = Some x \<and>
                    value_result vis h0 x v (heap s')) (k # ks) (x' # vs)"
        using all x(1) by simp
      moreover have "kw' = kw @ zip (k # ks) (x' # vs)"
        using kw' by simp
      moreover have "prefix (heap s) (heap s')"
        using p1 p2 by (rule prefix_order.trans)
      ultimately show "prefix (heap s) (heap s') \<and>
         (\<exists>vs. kw' = kw @ zip (k # ks) vs \<and>
            list_all2 (\<lambda>k v. \<exists>x. map_of attrs k = Some x \<and> value_result vis h0 x v (heap s'))
              (k # ks) vs)"
        by blast
    qed
  qed
qed

lemma outcome_generic_visit:
  assumes ext: "extends_heap vis" and wf: "wf_instance (heap s) a"
  shows "outcome vis (NodeTransformer_generic_visit vis (Ref a) s) (rebuilt vis s a)"
proof -
  from wf obtain c attrs where d: "deref (heap s) a = Some (Instance c attrs)"
    and k: "map fst attrs = cfields c" and dist: "distinct (cfields c)"
    and vv: "\<forall>(k, x) \<in> set attrs. valid_value (heap s) x"
    by (auto simp: wf_instance_def split: option.splits obj.splits)
  have w: "\<forall>k \<in> set (cfields c). \<exists>x. map_of attrs k = Some x \<and> valid_value (heap s) x"
  proof
    fix f assume "f \<in> set (cfields c)"
    then obtain x where m: "(f, x) \<in> set attrs"
      using k by (metis (no_types, lifting) fst_conv image_iff list.set_map prod.collapse)
    have "distinct (map fst attrs)" using k dist by simp
    then have "map_of attrs f = Some x" using m by (rule map_of_is_SomeI)
    then show "\<exists>x. map_of attrs f = Some x \<and> valid_value (heap s) x"
      using vv m by auto
  qed
  let ?k = "\<lambda>new_kwargs s'.
               (case type_of (heap s') (Ref a) of
                  Inl e \<Rightarrow> Some (Inl e)
                | Inr c \<Rightarrow> construct c new_kwargs s')"
  have gv: "NodeTransformer_generic_visit vis (Ref a) s =
      and_then (transform_fields vis (Ref a) (cfields c) [] s) ?k"
    using d by (simp add: NodeTransformer_generic_visit_def)
  have fields: "outcome vis (transform_fields vis (Ref a) (cfields c) [] s)
      (\<lambda>kw' s'. prefix (heap s) (heap s') \<and>
         (\<exists>vs. kw' = [] @ zip (cfields c) vs \<and>
            list_all2 (\<lambda>k v. \<exists>x. map_of attrs k = Some x \<and>
               value_result vis (heap s) x v (heap s')) (cfields c) vs))"
    by (rule outcome_transform_fields[OF ext d w]) (use dist in simp_all)
  show ?thesis
    unfolding gv
  proof (rule outcome_and_then[OF fields])
    fix kw and s1 :: state
    assume "prefix (heap s) (heap s1) \<and>
         (\<exists>vs. kw = [] @ zip (cfields c) vs \<and>
            list_all2 (\<lambda>k v. \<exists>x. map_of attrs k = Some x \<and>
               value_result vis (heap s) x v (heap s1)) (cfields c) vs)"
    then obtain vs where p: "prefix (heap s) (heap s1)" and kw: "kw = zip (cfields c) vs"
      and all: "list_all2 (\<lambda>k v. \<exists>x. map_of attrs k = Some x \<and>
               value_result vis (heap s) x v (heap s1)) (cfields c) vs"
      by auto
    have len: "length vs = length (cfields c)"
      using all by (simp add: list_all2_lengthD)
    have kwk: "map fst kw = cfields c"
      using kw len by simp
    define s2 where "s2 = s1\<lparr>heap := heap s1 @ [Instance c kw]\<rparr>"
    have ty: "type_of (heap s1) (Ref a) = Inr c"
      using deref_prefix[OF p d] by simp
    have con: "?k kw s1 = Some (Inr (Ref (length (heap s1)), s2))"
      using ty construct_ok[OF kwk dist, of s1] by (simp add: s2_def)
    have p2: "prefix (heap s1) (heap s2)"
      by (simp add: s2_def)
    have "rebuilt vis s a (Ref (length (heap s1))) s2"
      unfolding rebuilt_def
    proof (intro conjI exI)
      show "prefix (heap s) (heap s2)"
        using p p2 by (rule prefix_order.trans)
      show "deref (heap s) a = Some (Instance c attrs)" by (rule d)
      show "Ref (length (heap s1)) = Ref (length (heap s1))" ..
      show "length (heap s) \<le> length (heap s1)"
        using p by (rule prefix_length_le)
      show "deref (heap s2) (length (heap s1)) = Some (Instance c kw)"
        by (simp add: s2_def deref_def)
      show "map fst kw = cfields c" by (rule kwk)
      show "\<forall>f \<in> set (cfields c). \<exists>x x'.
           map_of attrs f = Some x \<and> map_of kw f = Some x' \<and>
           value_result vis (heap s) x x' (heap s2)"
      proof
        fix f assume "f \<in> set (cfields c)"
        then obtain j where j: "j < length (cfields c)" "cfields c ! j = f"
          by (auto simp: in_set_conv_nth)
        from all j obtain x where x: "map_of attrs f = Some x"
          "value_result vis (heap s) x (vs ! j) (heap s1)"
          by (auto simp: list_all2_conv_all_nth)
        have "map_of kw f = Some (vs ! j)"
          using map_of_zip_nth[of "cfields c" vs j] len dist j kw by simp
        moreover have "value_result vis (heap s) x (vs ! j) (heap s2)"
          using x(2) p2 by (rule value_result_prefix)
        ultimately show "\<exists>x x'.
           map_of attrs f = Some x \<and> map_of kw f = Some x' \<and>
           value_result vis (heap s) x x' (heap s2)"
          using x(1) by blast
      qed
    qed
    then show "outcome vis (?k kw s1) (rebuilt vis s a)"
      using con by simp
  qed
qed

section \<open>Runs on the example stores\<close>

lemma call_store_visited:
  "NodeVisitor_visit id_handlers 2 (Ref 3) \<lparr>heap = call_store, visited = []\<rparr> =
     Some (Inr (Prim PyNone, \<lparr>heap = call_store, visited = [Ref 3, Ref 0, Ref 1]\<rparr>))"
  by (simp add: NodeVisitor_visit_def generic_visit_def id_handlers_def const_handler_def
      call_store_def Call_def Identifier_def deref_def yield_field_def subclass_of_Node_def
      visit_items.simps numeral_2_eq_2 Let_def)

lemma call_store_rewritten:
  "NodeTransformer_visit id_handlers 2 (Ref 3) \<lparr>heap = call_store, visited = []\<rparr> =
     Some (Inr (Ref 5,
       \<lparr>heap = call_store @
          [PyList [Prim (PyBool True), Prim (PyInt 3)],
           Instance Call [(''func'', Prim (PyBool True)), (''args'', Ref 4)]],
        visited = [Ref 3, Ref 0, Ref 1]\<rparr>))"
  by (simp add: NodeTransformer_visit_def NodeTransformer_generic_visit_def id_handlers_def
      const_handler_def call_store_def Call_def Identifier_def deref_def yield_field_def
      alloc_def subclass_of_Node_def transform_items.simps list_append_def construct_def
      numeral_2_eq_2 Let_def)

lemma call_store_const_visit:
  "NodeTransformer_generic_visit const_visit (Ref 3) \<lparr>heap = call_store, visited = []\<rparr> =
     Some (Inr (Ref 5,
       \<lparr>heap = call_store @
          [PyList [Prim (PyBool True), Prim (PyInt 3)],
           Instance Call [(''func'', Prim (PyBool True)), (''args'', Ref 4)]],
        visited = []\<rparr>))"
  by (simp add: NodeTransformer_generic_visit_def const_visit_def
      call_store_def Call_def Identifier_def deref_def yield_field_def
      alloc_def subclass_of_Node_def transform_items.simps list_append_def construct_def
      Let_def)

lemma const_visit_extends: "extends_heap const_visit"
  by (simp add: extends_heap_def const_visit_def)

lemma const_visit_total: "\<exists>v sb. const_visit x sa = Some (Inr (v, sb))"
  by (simp add: const_visit_def)

lemma id_handlers_keep: "handlers_keep id_handlers"
  by (auto simp: handlers_keep_def id_handlers_def keeps_heap_def const_handler_def
      split: if_splits)

lemma id_handlers_extend: "handlers_extend id_handlers"
  by (auto simp: handlers_extend_def id_handlers_def extends_heap_def const_handler_def
      split: if_splits)

lemma call_store_wf: "wf_instance call_store 3"
  by (simp add: wf_instance_def call_store_def deref_def Call_def valid_value_def valid_def)

theorem generic_visit_same_kind_witness:
  "extends_heap const_visit \<and>
   type_of (heap \<lparr>heap = call_store, visited = []\<rparr>) (Ref 3) = Inr Call \<and>
   NodeTransformer_generic_visit const_visit (Ref 3) \<lparr>heap = call_store, visited = []\<rparr> =
     Some (Inr (Ref 5,
       \<lparr>heap = call_store @
          [PyList [Prim (PyBool True), Prim (PyInt 3)],
           Instance Call [(''func'', Prim (PyBool True)), (''args'', Ref 4)]],
        visited = []\<rparr>)) \<and>
   type_of (call_store @
          [PyList [Prim (PyBool True), Prim (PyInt 3)],
           Instance Call [(''func'', Prim (PyBool True)), (''args'', Ref 4)]]) (Ref 5) = Inr Call \<and>
   iter_dataclass_fields (call_store @
          [PyList [Prim (PyBool True), Prim (PyInt 3)],
           Instance Call [(''func'', Prim (PyBool True)), (''args'', Ref 4)]]) (Ref 5) =
     Inr [''func'', ''args'']"
proof -
  have t: "type_of (heap \<lparr>heap = call_store, visited = []\<rparr>) (Ref 3) = Inr Call"
    by (simp add: call_store_def deref_def)
  show ?thesis
    using const_visit_extends t call_store_const_visit
      generic_visit_same_kind[OF const_visit_extends t call_store_const_visit]
    by (simp add: Call_def)
qed

text \<open>
  Claim C6. Neither engine changes the tree it is given. What NodeVisitor.visit itself
  does leaves the whole store as it is, and what NodeTransformer.visit itself does only
  adds objects: whenever the handlers do not modify existing objects, every object of
  the store the call started from is the same when the call returns, so the input tree
  is still there; the output of the transformer is built from new objects. Without
  handlers, and within the recursion limit, both calls return and this holds outright.
\<close>

theorem input_tree_unchanged:
  assumes "repr (heap s) False node t"
  shows "(handlers_keep hs \<longrightarrow> NodeVisitor_visit hs n node s = Some (Inr (r1, s1)) \<longrightarrow>
            heap s1 = heap s \<and> repr (heap s1) False node t) \<and>
         (handlers_extend hs \<longrightarrow> NodeTransformer_visit hs n node s = Some (Inr (r2, s2)) \<longrightarrow>
            prefix (heap s) (heap s2) \<and> repr (heap s2) False node t) \<and>
         ((\<exists>a c fs. t = TNode a c fs) \<longrightarrow> depth t \<le> n \<longrightarrow>
            (\<exists>s'. NodeVisitor_visit Map.empty n node s = Some (Inr (Prim PyNone, s')) \<and>
                   heap s' = heap s) \<and>
            (\<exists>r' s'. NodeTransformer_visit Map.empty n node s = Some (Inr (r', s')) \<and>
                   prefix (heap s) (heap s') \<and> repr (heap s') False node t))"
proof (intro conjI impI)
  assume "handlers_keep hs" and "NodeVisitor_visit hs n node s = Some (Inr (r1, s1))"
  then show h: "heap s1 = heap s"
    using visit_keeps[of hs n] unfolding keeps_heap_def NodeVisitor_visit_def by blast
  then show "repr (heap s1) False node t"
    using assms by simp
next
  assume "handlers_extend hs" and "NodeTransformer_visit hs n node s = Some (Inr (r2, s2))"
  then show p: "prefix (heap s) (heap s2)"
    using visit_extends[of hs n] unfolding extends_heap_def NodeTransformer_visit_def by blast
  then show "repr (heap s2) False node t"
    using assms by (auto intro: repr_prefix)
next
  assume "\<exists>a c fs. t = TNode a c fs" and n: "depth t \<le> n"
  then obtain a c fs where t: "t = TNode a c fs" by blast
  show "\<exists>s'. NodeVisitor_visit Map.empty n node s = Some (Inr (Prim PyNone, s')) \<and>
                   heap s' = heap s"
    using plain_visit_node[of s node a c fs n] assms n t by (simp add: NodeVisitor_visit_def)
  from plain_transform_node[of s node a c fs n] assms n t obtain r' s' t' where
    "visit NodeTransformer_generic_visit Map.empty n node s = Some (Inr (r', s'))"
    "copied s False t s' r' t'"
    by auto
  then show "\<exists>r' s'. NodeTransformer_visit Map.empty n node s = Some (Inr (r', s')) \<and>
                   prefix (heap s) (heap s') \<and> repr (heap s') False node t"
    using assms by (auto simp: NodeTransformer_visit_def copied_def intro: repr_prefix)
qed

theorem input_tree_unchanged_witness:
  "repr (heap \<lparr>heap = call_store, visited = []\<rparr>) False (Ref 3) call_tree \<and>
   handlers_keep id_handlers \<and>
   NodeVisitor_visit id_handlers 2 (Ref 3) \<lparr>heap = call_store, visited = []\<rparr> =
     Some (Inr (Prim PyNone, \<lparr>heap = call_store, visited = [Ref 3, Ref 0, Ref 1]\<rparr>)) \<and>
   repr call_store False (Ref 3) call_tree \<and>
   handlers_extend id_handlers \<and>
   NodeTransformer_visit id_handlers 2 (Ref 3) \<lparr>heap = call_store, visited = []\<rparr> =
     Some (Inr (Ref 5,
       \<lparr>heap = call_store @
          [PyList [Prim (PyBool True), Prim (PyInt 3)],
           Instance Call [(''func'', Prim (PyBool True)), (''args'', Ref 4)]],
        visited = [Ref 3, Ref 0, Ref 1]\<rparr>)) \<and>
   prefix call_store (call_store @
          [PyList [Prim (PyBool True), Prim (PyInt 3)],
           Instance Call [(''func'', Prim (PyBool True)), (''args'', Ref 4)]]) \<and>
   repr (call_store @
          [PyList [Prim (PyBool True), Prim (PyInt 3)],
           Instance Call [(''func'', Prim (PyBool True)), (''args'', Ref 4)]])
     False (Ref 3) call_tree \<and>
   depth call_tree \<le> 2 \<and>
   (\<exists>s'. NodeVisitor_visit Map.empty 2 (Ref 3) \<lparr>heap = call_store, visited = []\<rparr> =
           Some (Inr (Prim PyNone, s')) \<and> heap s' = call_store) \<and>
   (\<exists>r' s'. NodeTransformer_visit Map.empty 2 (Ref 3) \<lparr>heap = call_store, visited = []\<rparr> =
           Some (Inr (r', s')) \<and> prefix call_store (heap s') \<and>
           repr (heap s') False (Ref 3) call_tree)"
proof -
  let ?s = "\<lparr>heap = call_store, visited = []\<rparr>"
  have r: "repr (heap ?s) False (Ref 3) call_tree"
    using call_tree_repr by simp
  have t: "\<exists>a c fs. call_tree = TNode a c fs"
    by (simp add: call_tree_def)
  have n: "depth call_tree \<le> 2"
    by (simp add: call_tree_def)
  note inst = input_tree_unchanged[OF r, of id_handlers 2]
  show ?thesis
    using r n id_handlers_keep id_handlers_extend call_store_visited call_store_rewritten t
      inst[of "Prim PyNone" "\<lparr>heap = call_store, visited = [Ref 3, Ref 0, Ref 1]\<rparr>"
          "Ref 5" "\<lparr>heap = call_store @
          [PyList [Prim (PyBool True), Prim (PyInt 3)],
           Instance Call [(''func'', Prim (PyBool True)), (''args'', Ref 4)]],
        visited = [Ref 3, Ref 0, Ref 1]\<rparr>"]
    by (simp del: repr.simps)
qed

section \<open>What generic_visit puts in a field\<close>

lemma outcome_total:
  assumes "outcome vis res P" and "\<forall>x sa. \<exists>v sb. vis x sa = Some (Inr (v, sb))"
  shows "\<exists>y s'. res = Some (Inr (y, s')) \<and> P y s'"
proof (cases res)
  case None
  with assms(1) obtain x sa where "vis x sa = None" by (auto simp: outcome_def)
  with assms(2) show ?thesis by (metis option.distinct(1))
next
  case (Some y)
  show ?thesis
  proof (cases y)
    case (Inl e)
    with Some assms(1) obtain x sa where "vis x sa = Some (Inl e)" by (auto simp: outcome_def)
    with assms(2) show ?thesis by (metis option.inject sum.distinct(1))
  next
    case (Inr p)
    with Some assms(1) show ?thesis by (cases p) (auto simp: outcome_def)
  qed
qed

lemma rebuilt_field:
  assumes wf: "wf_instance (heap s) a"
    and g: "getattr (heap s) (Ref a) f = Inr x"
    and rb: "rebuilt vis s a r s'"
  shows "\<exists>x'. getattr (heap s') r f = Inr x' \<and> value_result vis (heap s) x x' (heap s')"
proof -
  from rb obtain c attrs a' attrs' where
    d: "deref (heap s) a = Some (Instance c attrs)" and r: "r = Ref a'" and
    d': "deref (heap s') a' = Some (Instance c attrs')" and
    fields: "\<forall>k \<in> set (cfields c). \<exists>x x'.
           map_of attrs k = Some x \<and> map_of attrs' k = Some x' \<and>
           value_result vis (heap s) x x' (heap s')"
    unfolding rebuilt_def by blast
  from wf d have k: "map fst attrs = cfields c"
    by (simp add: wf_instance_def)
  from g d have m: "map_of attrs f = Some x"
    by (simp split: option.splits)
  then have "f \<in> set (cfields c)"
    using k by (metis (no_types, lifting) fst_conv image_iff list.set_map map_of_SomeD)
  with fields m obtain x' where "map_of attrs' f = Some x'"
    "value_result vis (heap s) x x' (heap s')"
    by fastforce
  then show ?thesis
    using r d' by simp
qed

text \<open>
  Claim C9. For a node with a list-valued field, NodeTransformer.generic_visit puts a
  new list of the same length in that field of the node it returns: at every position
  an item that is not a node is the original item, and an item that is a node is what
  \<^verbatim>\<open>self.visit\<close> returned for the original item at that position. The call returns
  whenever the visits of the children do. (The visits are taken not to modify existing
  objects, and the node to hold no dangling reference.)
\<close>

theorem list_field_positions:
  assumes "extends_heap self_visit" and "wf_instance (heap s) a"
    and "getattr (heap s) (Ref a) f = Inr (Ref l)"
    and "deref (heap s) l = Some (PyList xs)"
  shows "((\<forall>x sa. \<exists>v sb. self_visit x sa = Some (Inr (v, sb))) \<longrightarrow>
            (\<exists>r s'. NodeTransformer_generic_visit self_visit (Ref a) s = Some (Inr (r, s')))) \<and>
         (NodeTransformer_generic_visit self_visit (Ref a) s = Some (Inr (r, s')) \<longrightarrow>
            (\<exists>l' rs. getattr (heap s') r f = Inr (Ref l') \<and> length (heap s) \<le> l' \<and>
               deref (heap s') l' = Some (PyList rs) \<and> length rs = length xs \<and>
               (\<forall>j<length xs.
                  if isinstance_Node (heap s) (xs ! j)
                  then \<exists>sa sb. self_visit (xs ! j) sa = Some (Inr (rs ! j, sb))
                  else rs ! j = xs ! j)))"
proof (intro conjI impI)
  note out = outcome_generic_visit[OF assms(1,2)]
  {
    assume "\<forall>x sa. \<exists>v sb. self_visit x sa = Some (Inr (v, sb))"
    with out show "\<exists>r s'. NodeTransformer_generic_visit self_visit (Ref a) s = Some (Inr (r, s'))"
      by (blast dest: outcome_total)
  }
  assume run: "NodeTransformer_generic_visit self_visit (Ref a) s = Some (Inr (r, s'))"
  with out have rb: "rebuilt self_visit s a r s'"
    by simp
  from rebuilt_field[OF assms(2,3) rb] obtain x' where
    g': "getattr (heap s') r f = Inr x'" and
    vr: "value_result self_visit (heap s) (Ref l) x' (heap s')"
    by blast
  have il: "isinstance_list (heap s) (Ref l)" and li: "list_items (heap s) (Ref l) = Inr xs"
    using assms(4) by simp_all
  from vr il li obtain l' rs where x': "x' = Ref l'" and fresh: "length (heap s) \<le> l'"
    and d': "deref (heap s') l' = Some (PyList rs)"
    and all: "list_all2 (item_result self_visit (heap s)) xs rs"
    unfolding value_result_def by auto
  have len: "length rs = length xs"
    using all by (simp add: list_all2_lengthD)
  have items: "\<forall>j<length xs.
                  if isinstance_Node (heap s) (xs ! j)
                  then \<exists>sa sb. self_visit (xs ! j) sa = Some (Inr (rs ! j, sb))
                  else rs ! j = xs ! j"
  proof (intro allI impI)
    fix j assume "j < length xs"
    then have "item_result self_visit (heap s) (xs ! j) (rs ! j)"
      using all by (simp add: list_all2_conv_all_nth)
    then show "if isinstance_Node (heap s) (xs ! j)
                  then \<exists>sa sb. self_visit (xs ! j) sa = Some (Inr (rs ! j, sb))
                  else rs ! j = xs ! j"
      unfolding item_result_def by (auto split: if_splits)
  qed
  show "\<exists>l' rs. getattr (heap s') r f = Inr (Ref l') \<and> length (heap s) \<le> l' \<and>
               deref (heap s') l' = Some (PyList rs) \<and> length rs = length xs \<and>
               (\<forall>j<length xs.
                  if isinstance_Node (heap s) (xs ! j)
                  then \<exists>sa sb. self_visit (xs ! j) sa = Some (Inr (rs ! j, sb))
                  else rs ! j = xs ! j)"
    using g' x' fresh d' len items by blast
qed

theorem list_field_positions_witness:
  "extends_heap const_visit \<and>
   wf_instance (heap \<lparr>heap = call_store, visited = []\<rparr>) 3 \<and>
   getattr (heap \<lparr>heap = call_store, visited = []\<rparr>) (Ref 3) ''args'' = Inr (Ref 2) \<and>
   deref (heap \<lparr>heap = call_store, visited = []\<rparr>) 2 = Some (PyList [Ref 1, Prim (PyInt 3)]) \<and>
   NodeTransformer_generic_visit const_visit (Ref 3) \<lparr>heap = call_store, visited = []\<rparr> =
     Some (Inr (Ref 5,
       \<lparr>heap = call_store @
          [PyList [Prim (PyBool True), Prim (PyInt 3)],
           Instance Call [(''func'', Prim (PyBool True)), (''args'', Ref 4)]],
        visited = []\<rparr>)) \<and>
   (\<exists>l' rs.
      getattr (call_store @
          [PyList [Prim (PyBool True), Prim (PyInt 3)],
           Instance Call [(''func'', Prim (PyBool True)), (''args'', Ref 4)]]) (Ref 5) ''args'' =
        Inr (Ref l') \<and>
      4 \<le> l' \<and>
      deref (call_store @
          [PyList [Prim (PyBool True), Prim (PyInt 3)],
           Instance Call [(''func'', Prim (PyBool True)), (''args'', Ref 4)]]) l' =
        Some (PyList rs) \<and>
      length rs = 2 \<and>
      (\<exists>sa sb. const_visit (Ref 1) sa = Some (Inr (rs ! 0, sb))) \<and>
      rs ! 1 = Prim (PyInt 3))"
proof -
  let ?s = "\<lparr>heap = call_store, visited = []\<rparr>"
  let ?h' = "call_store @
          [PyList [Prim (PyBool True), Prim (PyInt 3)],
           Instance Call [(''func'', Prim (PyBool True)), (''args'', Ref 4)]]"
  have w: "wf_instance (heap ?s) 3"
    using call_store_wf by simp
  have g: "getattr (heap ?s) (Ref 3) ''args'' = Inr (Ref 2)"
    by (simp add: call_store_def deref_def)
  have d: "deref (heap ?s) 2 = Some (PyList [Ref 1, Prim (PyInt 3)])"
    by (simp add: call_store_def deref_def)
  have n1: "isinstance_Node (heap ?s) (Ref 1)"
    by (simp add: call_store_def deref_def Identifier_def subclass_of_Node_def)
  have len: "length (heap ?s) = 4"
    by (simp add: call_store_def)
  from list_field_positions[OF const_visit_extends w g d,
      of "Ref 5" "\<lparr>heap = ?h', visited = []\<rparr>"] call_store_const_visit
  obtain l' rs where
    a: "getattr ?h' (Ref 5) ''args'' = Inr (Ref l')" "length (heap ?s) \<le> l'"
       "deref ?h' l' = Some (PyList rs)" "length rs = length [Ref 1, Prim (PyInt 3)]" and
    b: "\<forall>j<length [Ref 1, Prim (PyInt 3)].
                  if isinstance_Node (heap ?s) ([Ref 1, Prim (PyInt 3)] ! j)
                  then \<exists>sa sb. const_visit ([Ref 1, Prim (PyInt 3)] ! j) sa = Some (Inr (rs ! j, sb))
                  else rs ! j = [Ref 1, Prim (PyInt 3)] ! j"
    by auto
  from b[rule_format, of 0] n1 have b0: "\<exists>sa sb. const_visit (Ref 1) sa = Some (Inr (rs ! 0, sb))"
    by simp
  from b[rule_format, of 1] have b1: "rs ! 1 = Prim (PyInt 3)"
    by simp
  have "\<exists>l' rs. getattr ?h' (Ref 5) ''args'' = Inr (Ref l') \<and> 4 \<le> l' \<and>
      deref ?h' l' = Some (PyList rs) \<and> length rs = 2 \<and>
      (\<exists>sa sb. const_visit (Ref 1) sa = Some (Inr (rs ! 0, sb))) \<and>
      rs ! 1 = Prim (PyInt 3)"
    using a b0 b1 unfolding len by (intro exI[of _ l'] exI[of _ rs]) simp
  then show ?thesis
    using const_visit_extends w g d call_store_const_visit by blast
qed

text \<open>
  The claim as stated fails: with a handler \<^verbatim>\<open>visit_Identifier\<close> that returns \<^verbatim>\<open>True\<close>,
  transforming \<^verbatim>\<open>Call(func=Identifier('f'), args=[Identifier('x'), 3])\<close> returns
  normally, and the \<^verbatim>\<open>func\<close> field of the new \<^verbatim>\<open>Call\<close>, which held a node, holds
  \<^verbatim>\<open>True\<close>.
\<close>

theorem incompatible_value_fails_counterexample:
  "id_handlers ''visit_Identifier'' = Some const_handler \<and>
   getattr call_store (Ref 3) ''func'' = Inr (Ref 0) \<and>
   isinstance_Node call_store (Ref 0) \<and>
   NodeTransformer_visit id_handlers 2 (Ref 3) \<lparr>heap = call_store, visited = []\<rparr> =
     Some (Inr (Ref 5,
       \<lparr>heap = call_store @
          [PyList [Prim (PyBool True), Prim (PyInt 3)],
           Instance Call [(''func'', Prim (PyBool True)), (''args'', Ref 4)]],
        visited = [Ref 3, Ref 0, Ref 1]\<rparr>)) \<and>
   getattr (call_store @
          [PyList [Prim (PyBool True), Prim (PyInt 3)],
           Instance Call [(''func'', Prim (PyBool True)), (''args'', Ref 4)]]) (Ref 5) ''func'' =
     Inr (Prim (PyBool True)) \<and>
   \<not> isinstance_Node (call_store @
          [PyList [Prim (PyBool True), Prim (PyInt 3)],
           Instance Call [(''func'', Prim (PyBool True)), (''args'', Ref 4)]]) (Prim (PyBool True))"
  using call_store_rewritten
  by (simp add: id_handlers_def call_store_def deref_def Identifier_def subclass_of_Node_def)

text \<open>
  Claim C5, as amended. NodeTransformer.generic_visit does not check the value a visit
  returns for a child against anything: whenever the visits of the children return, the
  reconstruction succeeds, and the field that held a child node holds what
  \<^verbatim>\<open>self.visit\<close> returned for that child, whatever it is.
\<close>

theorem generic_visit_stores_any_value:
  assumes "extends_heap self_visit" and "wf_instance (heap s) a"
    and "getattr (heap s) (Ref a) f = Inr x"
    and "isinstance_Node (heap s) x"
  shows "((\<forall>y sa. \<exists>v sb. self_visit y sa = Some (Inr (v, sb))) \<longrightarrow>
            (\<exists>r s'. NodeTransformer_generic_visit self_visit (Ref a) s = Some (Inr (r, s')))) \<and>
         (NodeTransformer_generic_visit self_visit (Ref a) s = Some (Inr (r, s')) \<longrightarrow>
            (\<exists>x' sa sb. self_visit x sa = Some (Inr (x', sb)) \<and>
               getattr (heap s') r f = Inr x'))"
proof (intro conjI impI)
  note out = outcome_generic_visit[OF assms(1,2)]
  {
    assume "\<forall>y sa. \<exists>v sb. self_visit y sa = Some (Inr (v, sb))"
    with out show "\<exists>r s'. NodeTransformer_generic_visit self_visit (Ref a) s = Some (Inr (r, s'))"
      by (blast dest: outcome_total)
  }
  assume run: "NodeTransformer_generic_visit self_visit (Ref a) s = Some (Inr (r, s'))"
  with out have rb: "rebuilt self_visit s a r s'"
    by simp
  from rebuilt_field[OF assms(2,3) rb] obtain x' where
    g': "getattr (heap s') r f = Inr x'" and
    vr: "value_result self_visit (heap s) x x' (heap s')"
    by blast
  have "\<not> isinstance_list (heap s) x"
    using assms(4) by (cases x) (auto split: option.splits obj.splits)
  with vr assms(4) obtain sa sb where "self_visit x sa = Some (Inr (x', sb))"
    unfolding value_result_def item_result_def by auto
  with g' show "\<exists>x' sa sb. self_visit x sa = Some (Inr (x', sb)) \<and>
               getattr (heap s') r f = Inr x'"
    by blast
qed

theorem generic_visit_stores_any_value_witness:
  "extends_heap const_visit \<and>
   wf_instance (heap \<lparr>heap = call_store, visited = []\<rparr>) 3 \<and>
   getattr (heap \<lparr>heap = call_store, visited = []\<rparr>) (Ref 3) ''func'' = Inr (Ref 0) \<and>
   isinstance_Node (heap \<lparr>heap = call_store, visited = []\<rparr>) (Ref 0) \<and>
   (\<exists>r s'. NodeTransformer_generic_visit const_visit (Ref 3)
              \<lparr>heap = call_store, visited = []\<rparr> = Some (Inr (r, s'))) \<and>
   NodeTransformer_generic_visit const_visit (Ref 3) \<lparr>heap = call_store, visited = []\<rparr> =
     Some (Inr (Ref 5,
       \<lparr>heap = call_store @
          [PyList [Prim (PyBool True), Prim (PyInt 3)],
           Instance Call [(''func'', Prim (PyBool True)), (''args'', Ref 4)]],
        visited = []\<rparr>)) \<and>
   (\<exists>x' sa sb. const_visit (Ref 0) sa = Some (Inr (x', sb)) \<and>
      getattr (call_store @
          [PyList [Prim (PyBool True), Prim (PyInt 3)],
           Instance Call [(''func'', Prim (PyBool True)), (''args'', Ref 4)]]) (Ref 5) ''func'' =
        Inr x')"
proof -
  let ?s = "\<lparr>heap = call_store, visited = []\<rparr>"
  let ?h' = "call_store @
          [PyList [Prim (PyBool True), Prim (PyInt 3)],
           Instance Call [(''func'', Prim (PyBool True)), (''args'', Ref 4)]]"
  have w: "wf_instance (heap ?s) 3"
    using call_store_wf by simp
  have g: "getattr (heap ?s) (Ref 3) ''func'' = Inr (Ref 0)"
    by (simp add: call_store_def deref_def)
  have n0: "isinstance_Node (heap ?s) (Ref 0)"
    by (simp add: call_store_def deref_def Identifier_def subclass_of_Node_def)
  have tot: "\<forall>y sa. \<exists>v sb. const_visit y sa = Some (Inr (v, sb))"
    using const_visit_total by blast
  note inst = generic_visit_stores_any_value[OF const_visit_extends w g n0,
      of "Ref 5" "\<lparr>heap = ?h', visited = []\<rparr>"]
  have r1: "\<exists>r s'. NodeTransformer_generic_visit const_visit (Ref 3) ?s = Some (Inr (r, s'))"
    using inst tot by blast
  have r2: "\<exists>x' sa sb. const_visit (Ref 0) sa = Some (Inr (x', sb)) \<and>
      getattr ?h' (Ref 5) ''func'' = Inr x'"
    using inst call_store_const_visit by simp
  show ?thesis
    using const_visit_extends w g n0 r1 r2 call_store_const_visit by blast
qed

end
